theory Spec2Isabelle
  imports Main
begin

section \<open>JavaScript strings and the regular expressions the modules use\<close>

text \<open>
  A JavaScript string is modelled as a \<open>string\<close> (a list of 8-bit characters).
  \<open>String.prototype.trim\<close> strips the white space of that range from both ends.
\<close>

definition isWhitespace :: "char \<Rightarrow> bool" where
  "isWhitespace c = (c \<in> set [CHR '' '', CHR 0x09, CHR 0x0A, CHR 0x0B, CHR 0x0C, CHR 0x0D, CHR 0xA0])"

definition trim :: "string \<Rightarrow> string" where
  "trim s = rev (dropWhile isWhitespace (rev (dropWhile isWhitespace s)))"

definition startsWith :: "string \<Rightarrow> string \<Rightarrow> bool" where
  "startsWith s p = (take (length p) s = p)"

definition isDigit :: "char \<Rightarrow> bool" where
  "isDigit c = (c \<in> set ''0123456789'')"

definition isUpper :: "char \<Rightarrow> bool" where
  "isUpper c = (c \<in> set ''ABCDEFGHIJKLMNOPQRSTUVWXYZ'')"

definition isLower :: "char \<Rightarrow> bool" where
  "isLower c = (c \<in> set ''abcdefghijklmnopqrstuvwxyz'')"

definition isLetter :: "char \<Rightarrow> bool" where
  "isLetter c = (isUpper c \<or> isLower c)"

text \<open>The class \<open>\w\<close> of a JavaScript regular expression.\<close>

definition isWordChar :: "char \<Rightarrow> bool" where
  "isWordChar c = (isLetter c \<or> isDigit c \<or> c = CHR ''_'')"

text \<open>
  \<open>\b\<close> in front of a pattern whose first character is a word character: the
  previous character of the subject (\<open>None\<close> at the start) is not a word character.
\<close>

definition atWordBoundary :: "char option \<Rightarrow> bool" where
  "atWordBoundary prev = (case prev of None \<Rightarrow> True | Some c \<Rightarrow> \<not> isWordChar c)"

text \<open>A negative look-ahead \<open>(?![c])\<close>: the rest does not start with \<open>c\<close>.\<close>

definition lookaheadOk :: "char option \<Rightarrow> string \<Rightarrow> bool" where
  "lookaheadOk nla rest =
     (case nla of None \<Rightarrow> True
      | Some c \<Rightarrow> (case rest of [] \<Rightarrow> True | r # _ \<Rightarrow> r \<noteq> c))"

text \<open>
  \<open>s.replace(/PAT/g, rep)\<close> for a literal pattern \<open>p # ps\<close>, optionally
  anchored by \<open>\b\<close> (\<open>wb\<close>) and followed by a negative look-ahead (\<open>nla\<close>):
  the subject is scanned from the left, a match is replaced and the scan goes on behind it;
  \<open>prev\<close> is the character of the subject in front of the scan position.
\<close>

fun regexReplaceAll ::
  "bool \<Rightarrow> char \<Rightarrow> string \<Rightarrow> char option \<Rightarrow> string \<Rightarrow> char option \<Rightarrow> string \<Rightarrow> string" where
  "regexReplaceAll wb p ps nla rep prev [] = []"
| "regexReplaceAll wb p ps nla rep prev (c # cs) =
     (if c = p \<and> startsWith cs ps \<and> (wb \<longrightarrow> atWordBoundary prev)
         \<and> lookaheadOk nla (drop (length ps) cs)
      then rep @ regexReplaceAll wb p ps nla rep (Some (last (p # ps))) (drop (length ps) cs)
      else c # regexReplaceAll wb p ps nla rep (Some c) cs)"

text \<open>\<open>s.replace(/^PAT/, rep)\<close> for a literal pattern.\<close>

definition replacePrefix :: "string \<Rightarrow> string \<Rightarrow> string \<Rightarrow> string" where
  "replacePrefix pat rep s = (if startsWith s pat then rep @ drop (length pat) s else s)"

section \<open>Conditions\<close>

datatype optype = Mem | Value | Delta | Prior | BCD | Float | Invert | Recall

text \<open>
  The fields the parser produces and the serializer reads; a condition of the list adds
  its identifiers and its expansion state.
\<close>

record parsed_condition =
  flag :: string
  type :: optype
  size_field :: string
  memory :: string
  cmp :: string
  compareType :: optype
  compareSize :: string
  value_field :: string
  hits :: string

record condition = parsed_condition +
  lineId :: nat
  groupId :: nat
  bytes :: string
  expanded :: bool
  expandedLines :: "string list"

definition OPERAND_FLAGS :: "string list" where
  "OPERAND_FLAGS = [''A:'', ''B:'', ''I:'', ''K:'']"

definition sizeMapForText :: "(string \<times> string) list" where
  "sizeMapForText =
     [(''Bit0'', ''M''), (''Bit1'', ''N''), (''Bit2'', ''O''), (''Bit3'', ''P''),
      (''Bit4'', ''Q''), (''Bit5'', ''R''), (''Bit6'', ''S''), (''Bit7'', ''T''),
      (''Lower4'', ''L''), (''Upper4'', ''U''), (''8-bit'', ''H''), (''16-bit'', ''''),
      (''24-bit'', ''W''), (''32-bit'', ''X''), (''16-bit BE'', ''I''), (''24-bit BE'', ''J''),
      (''32-bit BE'', ''G''), (''BitCount'', ''K''), (''Float'', ''fF''), (''Float BE'', ''fB''),
      (''Double32'', ''fH''), (''Double32 BE'', ''fI''), (''MBF32'', ''fM''), (''MBF32 LE'', ''fL'')]"

text \<open>
  \<open>sizeMapForText[size] || ''\<close>, for a size that is a key of the table or the name of
  no property at all. The table is a plain object, so a size that names a member of
  \<open>Object.prototype\<close> (such as \<open>constructor\<close>) would find that member; the sizes
  the parser and the size selector produce are keys of the table.
\<close>

definition sizePrefixFor :: "string \<Rightarrow> string" where
  "sizePrefixFor sz = (case map_of sizeMapForText sz of Some p \<Rightarrow> p | None \<Rightarrow> '''')"

definition typeLetter :: "optype \<Rightarrow> string" where
  "typeLetter t =
     (if t = Delta then ''d'' else if t = Prior then ''p''
      else if t = BCD then ''b'' else if t = Invert then ''~'' else '''')"

text \<open>\<open>m.replace('0x', '0x' + prefix)\<close> under the guard \<open>m.startsWith('0x')\<close>.\<close>

definition withSizePrefix :: "string \<Rightarrow> string \<Rightarrow> string" where
  "withSizePrefix sz m =
     (if startsWith m ''0x'' then ''0x'' @ sizePrefixFor sz @ drop 2 m else m)"

text \<open>\<open>convertBitfieldConditionToText\<close> of expansion-system.js.\<close>

definition convertBitfieldConditionToText :: "'a parsed_condition_scheme \<Rightarrow> string" where
  "convertBitfieldConditionToText c =
     (if flag c \<noteq> [] then flag c else [])
     @ typeLetter (type c)
     @ (if type c = Value then memory c else withSizePrefix (size_field c) (memory c))
     @ (if cmp c \<noteq> [] then
          cmp c
          @ (if compareType c = Recall then ''{recall}''
             else if compareType c = Value then value_field c
             else typeLetter (compareType c) @ withSizePrefix (compareSize c) (value_field c))
        else [])
     @ (if hits c \<noteq> [] \<and> hits c \<noteq> ''0'' then ''.'' @ hits c @ ''.'' else [])"

section \<open>The Delta/Mem and And/Or-Next passes (delta-mem-check.js)\<close>

text \<open>\<open>line.replace(/\b0xH/g, 'd0xH').replace(/\b0x(?![d])/g, 'd0x')\<close>\<close>

definition deltaVersion :: "string \<Rightarrow> string" where
  "deltaVersion line =
     regexReplaceAll True CHR ''0'' ''x'' (Some CHR ''d'') ''d0x'' None
       (regexReplaceAll True CHR ''0'' ''xH'' None ''d0xH'' None line)"

text \<open>\<open>line.replace(/\bd0xH/g, '0xH').replace(/\bd0x(?![H])/g, '0x')\<close>\<close>

definition memVersion :: "string \<Rightarrow> string" where
  "memVersion line =
     regexReplaceAll True CHR ''d'' ''0x'' (Some CHR ''H'') ''0x'' None
       (regexReplaceAll True CHR ''d'' ''0xH'' None ''0xH'' None line)"

definition isDeltaOrMem :: "optype \<Rightarrow> bool" where
  "isDeltaOrMem t = (t = Delta \<or> t = Mem)"

definition applyDeltaMemCheck :: "'a parsed_condition_scheme \<Rightarrow> string list \<Rightarrow> string list" where
  "applyDeltaMemCheck c expandedLs =
     (if \<not> isDeltaOrMem (type c) \<and> \<not> isDeltaOrMem (compareType c) then expandedLs
      else
        let deltaLines = map (\<lambda>line. if startsWith line ''I:'' then line else deltaVersion line) expandedLs;
            memLines = map (\<lambda>line. if startsWith line ''I:'' then line else memVersion line) expandedLs;
            accumulator = (if flag c = ''A:'' \<or> flag c = ''B:'' then [''0=0''] else [])
        in (deltaLines @ accumulator) @ (memLines @ accumulator))"

text \<open>The six global replacements under the comment ``Invert comparisons'', in order.\<close>

definition invertComparisons :: "string \<Rightarrow> string" where
  "invertComparisons l0 =
     (let l1 = regexReplaceAll False CHR ''='' '''' None ''!='' None l0;
          l2 = regexReplaceAll False CHR ''!'' ''='' None ''='' None l1;
          l3 = regexReplaceAll False CHR ''>'' '''' None ''<='' None l2;
          l4 = regexReplaceAll False CHR ''<'' ''='' None ''>'' None l3;
          l5 = regexReplaceAll False CHR ''<'' '''' None ''>='' None l4;
          l6 = regexReplaceAll False CHR ''>'' ''='' None ''<'' None l5
      in l6)"

definition andNextVersion :: "string \<Rightarrow> string" where
  "andNextVersion line = invertComparisons (memVersion (deltaVersion (replacePrefix ''O:'' ''N:'' line)))"

definition orNextVersion :: "string \<Rightarrow> string" where
  "orNextVersion line = invertComparisons (memVersion (deltaVersion (replacePrefix ''N:'' ''O:'' line)))"

definition applyAndOrNextCheck :: "'a parsed_condition_scheme \<Rightarrow> string list \<Rightarrow> string list" where
  "applyAndOrNextCheck c expandedLs =
     (if \<not> isDeltaOrMem (type c) \<and> \<not> isDeltaOrMem (compareType c) then expandedLs
      else
        let n = length expandedLs;
            andNextLines = map (\<lambda>(index, line). if index = n - 1 then line else andNextVersion line)
                             (zip [0..<n] expandedLs);
            orNextLines = map (\<lambda>(index, line). if index = n - 1 then line else orNextVersion line)
                            (zip [0..<n] expandedLs)
        in andNextLines @ orNextLines)"

section \<open>Groups and the confirmation of an expansion\<close>

text \<open>\<open>getGroupLines\<close> of groups.js.\<close>

definition getGroupLines :: "condition list \<Rightarrow> nat \<Rightarrow> condition list" where
  "getGroupLines bitfieldConditions g = filter (\<lambda>c. groupId c = g) bitfieldConditions"

text \<open>
  The expansion table is created by \<open>new Map()\<close>, but the expansion of a line is
  stored and read as a property of that object (\<open>bitfieldExpansions[lineId] = ...\<close>,
  \<open>delete bitfieldExpansions[lineId]\<close>), while \<open>bitfieldExpansions.delete(id)\<close>
  acts on the entries of the Map. The two stores are separate in JavaScript, so the
  object is modelled with both.
\<close>

record 'e jsMap =
  mapEntries :: "nat \<rightharpoonup> 'e"
  ownProps :: "nat \<rightharpoonup> 'e"

record 'cd lineConfig =
  customized :: bool
  customData :: "'cd option"
  arithmeticIncrement :: string

text \<open>
  \<open>generatedGroups\<close> holds what \<open>parseInt(expansion.generatedGroups)\<close> returns,
  \<open>None\<close> for \<open>NaN\<close>.
\<close>

record 'cd expansion =
  generatedGroups :: "int option"
  deltaCheck :: bool
  lineConfigs :: "'cd lineConfig list"

datatype jsError = TypeError

text \<open>\<open>parseInt(expansion.generatedGroups) || 1\<close>\<close>

definition generatedGroupsOr1 :: "'cd expansion \<Rightarrow> int" where
  "generatedGroupsOr1 e = (case generatedGroups e of None \<Rightarrow> 1 | Some g \<Rightarrow> if g = 0 then 1 else g)"

text \<open>
  The body of the inner \<open>forEach\<close>: the lines one member contributes to one
  repetition. Reading \<open>lineConfig.customized\<close> of a missing line configuration throws.
\<close>

definition linesToAdd ::
  "(condition \<Rightarrow> 'cd lineConfig \<Rightarrow> nat \<Rightarrow> string) \<Rightarrow> (condition \<Rightarrow> 'cd lineConfig \<Rightarrow> nat \<Rightarrow> string list)
   \<Rightarrow> (condition \<Rightarrow> string) \<Rightarrow> 'cd expansion \<Rightarrow> nat \<times> nat \<times> condition \<Rightarrow> jsError + string list" where
  "linesToAdd generateArithmeticLine generateCustomLines toText e step =
     (case step of (groupIdx, lineIdx, line) \<Rightarrow>
        if lineIdx < length (lineConfigs e) then
          (let lineConfig = lineConfigs e ! lineIdx in
           if customized lineConfig \<and> customData lineConfig \<noteq> None
             then Inr (generateCustomLines line lineConfig groupIdx)
           else if arithmeticIncrement lineConfig \<noteq> [] \<and> trim (arithmeticIncrement lineConfig) \<noteq> []
             then Inr [generateArithmeticLine line lineConfig groupIdx]
           else Inr [toText line])
        else Inl TypeError)"

fun pushAll :: "('s \<Rightarrow> jsError + string list) \<Rightarrow> 's list \<Rightarrow> jsError + string list" where
  "pushAll f [] = Inr []"
| "pushAll f (x # xs) =
     (case f x of Inl err \<Rightarrow> Inl err
      | Inr ls \<Rightarrow> (case pushAll f xs of Inl err \<Rightarrow> Inl err | Inr rest \<Rightarrow> Inr (ls @ rest)))"

text \<open>The iterations of the two nested loops, in the order they run.\<close>

definition expansionSteps :: "int \<Rightarrow> condition list \<Rightarrow> (nat \<times> nat \<times> condition) list" where
  "expansionSteps k groupLines =
     concat (map (\<lambda>groupIdx. map (\<lambda>(lineIdx, line). (groupIdx, lineIdx, line))
                                  (zip [0..<length groupLines] groupLines))
                 [0..<nat k])"

definition deltaMemApplies :: "'cd expansion \<Rightarrow> condition list \<Rightarrow> bool" where
  "deltaMemApplies e groupLines =
     (deltaCheck e \<and> list_ex (\<lambda>l. isDeltaOrMem (type l) \<or> isDeltaOrMem (compareType l)) groupLines)"

definition afterDeltaMemCheck :: "'cd expansion \<Rightarrow> condition list \<Rightarrow> string list \<Rightarrow> string list" where
  "afterDeltaMemCheck e groupLines allExpandedLines =
     (if deltaMemApplies e groupLines then
        (if list_ex (\<lambda>l. flag l = ''A:'' \<or> flag l = ''B:'') groupLines
           then applyDeltaMemCheck (last groupLines) allExpandedLines
         else if list_ex (\<lambda>l. flag l = ''N:'' \<or> flag l = ''O:'') groupLines
           then applyAndOrNextCheck (last groupLines) allExpandedLines
         else allExpandedLines)
      else allExpandedLines)"

text \<open>
  \<open>confirmExpansion\<close> of expansion-system.js; the three generators are parameters of
  the source function. The result is the new table and the new condition list.
\<close>

definition confirmExpansion ::
  "'cd expansion jsMap \<Rightarrow> condition list \<Rightarrow> nat
   \<Rightarrow> (condition \<Rightarrow> 'cd lineConfig \<Rightarrow> nat \<Rightarrow> string) \<Rightarrow> (condition \<Rightarrow> 'cd lineConfig \<Rightarrow> nat \<Rightarrow> string list)
   \<Rightarrow> (condition \<Rightarrow> string) \<Rightarrow> jsError + ('cd expansion jsMap \<times> condition list)" where
  "confirmExpansion bitfieldExpansions bitfieldConditions expansionId
       generateArithmeticLine generateCustomLines toText =
     (case ownProps bitfieldExpansions expansionId of
        None \<Rightarrow> Inr (bitfieldExpansions, bitfieldConditions)
      | Some e \<Rightarrow>
         (case find (\<lambda>c. lineId c = expansionId) bitfieldConditions of
            None \<Rightarrow> Inr (bitfieldExpansions, bitfieldConditions)
          | Some cond \<Rightarrow>
             (let groupLines = getGroupLines bitfieldConditions (groupId cond) in
              case pushAll (linesToAdd generateArithmeticLine generateCustomLines toText e)
                     (expansionSteps (generatedGroupsOr1 e) groupLines) of
                Inl err \<Rightarrow> Inl err
              | Inr allExpandedLines \<Rightarrow>
                 Inr (bitfieldExpansions\<lparr>ownProps := (ownProps bitfieldExpansions)(expansionId := None)\<rparr>,
                      map (\<lambda>c. if groupId c = groupId cond
                                then c\<lparr>expanded := True,
                                       expandedLines := afterDeltaMemCheck e groupLines allExpandedLines\<rparr>
                                else c)
                          bitfieldConditions))))"

section \<open>The parser (parsing.js, core-constants.js)\<close>

definition sizePrefixMap :: "(string \<times> string) list" where
  "sizePrefixMap =
     [(''M'', ''Bit0''), (''N'', ''Bit1''), (''O'', ''Bit2''), (''P'', ''Bit3''),
      (''Q'', ''Bit4''), (''R'', ''Bit5''), (''S'', ''Bit6''), (''T'', ''Bit7''),
      (''L'', ''Lower4''), (''U'', ''Upper4''), (''H'', ''8-bit''), (''W'', ''24-bit''),
      (''X'', ''32-bit''), (''I'', ''16-bit BE''), (''J'', ''24-bit BE''), (''G'', ''32-bit BE''),
      (''K'', ''BitCount''), (''fF'', ''Float''), (''fB'', ''Float BE''), (''fH'', ''Double32''),
      (''fI'', ''Double32 BE''), (''fM'', ''MBF32''), (''fL'', ''MBF32 LE''), ([], ''16-bit'')]"

definition sizePrefixOrder :: "string list" where
  "sizePrefixOrder =
     [''fF'', ''fB'', ''fH'', ''fI'', ''fM'', ''fL'', ''M'', ''N'', ''O'', ''P'', ''Q'', ''R'',
      ''S'', ''T'', ''L'', ''U'', ''H'', ''W'', ''X'', ''I'', ''J'', ''G'', ''K'']"

text \<open>
  \<open>toUpperCase\<close> on ASCII text: the letters a to z are mapped, every other character is
  kept. Letters outside ASCII, which JavaScript maps as well, are outside this model.
\<close>

definition toUpperChar :: "char \<Rightarrow> char" where
  "toUpperChar c =
     (case map_of (zip ''abcdefghijklmnopqrstuvwxyz'' ''ABCDEFGHIJKLMNOPQRSTUVWXYZ'') c of
        Some u \<Rightarrow> u | None \<Rightarrow> c)"

definition toUpperCase :: "string \<Rightarrow> string" where
  "toUpperCase s = map toUpperChar s"

definition isHexDigit :: "char \<Rightarrow> bool" where
  "isHexDigit c = (c \<in> set ''0123456789ABCDEFabcdef'')"

text \<open>\<open>parseMemoryToken\<close>: the result is (size, memory).\<close>

definition parseMemoryToken :: "string \<Rightarrow> string \<times> string" where
  "parseMemoryToken token =
     (let body0 = drop 2 token;
          prefix = (case find (\<lambda>candidate. startsWith body0 candidate) sizePrefixOrder of
                      Some candidate \<Rightarrow> candidate | None \<Rightarrow> []);
          body = drop (length prefix) body0;
          sz = (case map_of sizePrefixMap prefix of Some z \<Rightarrow> z | None \<Rightarrow> ''16-bit'')
      in (sz, ''0x'' @ toUpperCase body))"

text \<open>\<open>parseOperandToken\<close>: the result is (type, size, memory).\<close>

definition parseOperandToken :: "string \<Rightarrow> optype \<times> string \<times> string" where
  "parseOperandToken token =
     (let trimmed = trim token in
      if startsWith trimmed ''{recall}'' then (Recall, [], [])
      else
        let hasPrefix = (case trimmed of [] \<Rightarrow> False | c # _ \<Rightarrow> c \<in> set ''dpb~'');
            rest = (if hasPrefix then drop 1 trimmed else trimmed);
            ty = (if hasPrefix then
                    (if hd trimmed = CHR ''d'' then Delta
                     else if hd trimmed = CHR ''p'' then Prior
                     else if hd trimmed = CHR ''b'' then BCD else Invert)
                  else Mem)
        in if startsWith rest ''{recall}'' then (Recall, [], [])
           else if startsWith rest ''0x'' then
             (case parseMemoryToken rest of (sz, m) \<Rightarrow> (ty, sz, m))
           else (Value, ''8-bit'', trimmed))"

text \<open>\<open>working.match(/\.(\d+)\.$/)\<close>: the digits of the hits suffix.\<close>

definition matchHits :: "string \<Rightarrow> string option" where
  "matchHits s =
     (case rev s of
        [] \<Rightarrow> None
      | c # r \<Rightarrow>
          if c = CHR ''.'' \<and> takeWhile isDigit r \<noteq> [] \<and> startsWith (dropWhile isDigit r) ''.''
          then Some (rev (takeWhile isDigit r)) else None)"

text \<open>\<open>working.match(/^([A-Z]:)/)\<close>\<close>

definition matchFlag :: "string \<Rightarrow> string option" where
  "matchFlag s =
     (case s of c1 # c2 # _ \<Rightarrow> if isUpper c1 \<and> c2 = CHR '':'' then Some [c1, c2] else None
      | _ \<Rightarrow> None)"

text \<open>
  \<open>0x[a-zA-Z]{0,2}[0-9A-Fa-f]+\<close> at the start of \<open>s\<close>: the letters are matched
  greedily, two, then one, then none, and the hexadecimal digits as far as they go.
\<close>

definition matchHexAfterLetters :: "nat \<Rightarrow> string \<Rightarrow> string option" where
  "matchHexAfterLetters n after =
     (if n \<le> length after \<and> list_all isLetter (take n after) \<and> takeWhile isHexDigit (drop n after) \<noteq> []
      then Some (take n after @ takeWhile isHexDigit (drop n after)) else None)"

definition matchAddress :: "string \<Rightarrow> string option" where
  "matchAddress s =
     (if startsWith s ''0x'' then
        (case matchHexAfterLetters 2 (drop 2 s) of
           Some t \<Rightarrow> Some (''0x'' @ t)
         | None \<Rightarrow>
            (case matchHexAfterLetters 1 (drop 2 s) of
               Some t \<Rightarrow> Some (''0x'' @ t)
             | None \<Rightarrow> map_option (\<lambda>t. ''0x'' @ t) (matchHexAfterLetters 0 (drop 2 s))))
      else None)"

text \<open>\<open>[dpb~]?0x[a-zA-Z]{0,2}[0-9A-Fa-f]+\<close>\<close>

definition matchModifiedAddress :: "string \<Rightarrow> string option" where
  "matchModifiedAddress s =
     (case s of
        [] \<Rightarrow> None
      | c # r \<Rightarrow>
          if c \<in> set ''dpb~'' then
            (case matchAddress r of Some t \<Rightarrow> Some (c # t) | None \<Rightarrow> matchAddress s)
          else matchAddress s)"

text \<open>\<open>-?\d+\<close>\<close>

definition matchInteger :: "string \<Rightarrow> string option" where
  "matchInteger s =
     (let body = (if startsWith s ''-'' then drop 1 s else s) in
      if takeWhile isDigit body \<noteq> []
      then Some ((if startsWith s ''-'' then ''-'' else []) @ takeWhile isDigit body)
      else None)"

text \<open>The left operand: \<open>/^(\{recall\}|[dpb~]?0x[a-zA-Z]{0,2}[0-9A-Fa-f]+|-?\d+)/\<close>.\<close>

definition matchLeft :: "string \<Rightarrow> string option" where
  "matchLeft s =
     (if startsWith s ''{recall}'' then Some ''{recall}''
      else (case matchModifiedAddress s of Some t \<Rightarrow> Some t | None \<Rightarrow> matchInteger s))"

text \<open>\<open>/^([*\/%+\-&\^])/\<close> for an operand flag, \<open>/^(<=|>=|!=|=|<|>)/\<close> otherwise.\<close>

definition matchCmp :: "bool \<Rightarrow> string \<Rightarrow> string option" where
  "matchCmp isOperandFlag s =
     (if isOperandFlag then
        (case s of [] \<Rightarrow> None | c # _ \<Rightarrow> if c \<in> set ''*/%+-&^'' then Some [c] else None)
      else find (\<lambda>alt. startsWith s alt) [''<='', ''>='', ''!='', ''='', ''<'', ''>''])"

text \<open>\<open>parseLineToCondition\<close>; \<open>None\<close> is the \<open>null\<close> of a line that does not parse.\<close>

definition parseLineToCondition :: "string \<Rightarrow> parsed_condition option" where
  "parseLineToCondition line =
     (let trimmedLine = trim line in
      if trimmedLine = [] then None
      else
        let hitsMatch = matchHits trimmedLine;
            hits0 = (case hitsMatch of Some h \<Rightarrow> h | None \<Rightarrow> []);
            working1 = (case hitsMatch of
                          Some h \<Rightarrow> take (length trimmedLine - (length h + 2)) trimmedLine
                        | None \<Rightarrow> trimmedLine);
            flagMatch = matchFlag working1;
            flag0 = (case flagMatch of Some f \<Rightarrow> f | None \<Rightarrow> []);
            working2 = drop (length flag0) working1;
            isOperandFlag = (flag0 \<in> set OPERAND_FLAGS)
        in case matchLeft working2 of
             None \<Rightarrow> None
           | Some leftToken \<Rightarrow>
              let working3 = drop (length leftToken) working2;
                  remaining0 = trim working3;
                  cmpMatch = (if remaining0 \<noteq> [] then matchCmp isOperandFlag remaining0 else None);
                  cmp1 = (if remaining0 \<noteq> [] then
                            (case cmpMatch of Some m \<Rightarrow> m
                             | None \<Rightarrow> if \<not> isOperandFlag then ''='' else [])
                          else []);
                  remaining1 = (case cmpMatch of Some m \<Rightarrow> drop (length m) remaining0
                                | None \<Rightarrow> remaining0);
                  rightToken = (if remaining0 \<noteq> [] \<and> cmp1 \<noteq> [] then trim remaining1 else []);
                  cmp2 = (if \<not> isOperandFlag \<and> cmp1 = [] then ''='' else cmp1);
                  left = parseOperandToken leftToken;
                  right = (if rightToken \<noteq> [] then Some (parseOperandToken rightToken) else None)
              in Some \<lparr>flag = flag0,
                       type = fst left,
                       size_field = fst (snd left),
                       memory = snd (snd left),
                       cmp = cmp2,
                       compareType = (case right of Some r \<Rightarrow> fst r | None \<Rightarrow> Value),
                       compareSize = (case right of Some r \<Rightarrow> fst (snd r) | None \<Rightarrow> ''8-bit''),
                       value_field = (case right of Some r \<Rightarrow> snd (snd r) | None \<Rightarrow> ''0''),
                       hits = (if isOperandFlag then [] else hits0)\<rparr>)"

section \<open>Renumbering and the operations on the condition list (groups.js, bitfield-operations.js)\<close>

text \<open>
  \<open>members.reduce((max, line) => line.lineId > max.lineId ? line : max)\<close>, on a
  non-empty array (every call site passes the group of a condition of the list).
\<close>

definition maxLineIdMember :: "condition list \<Rightarrow> condition" where
  "maxLineIdMember members =
     foldl (\<lambda>mx line. if lineId line > lineId mx then line else mx) (hd members) (tl members)"

text \<open>The first \<open>forEach\<close> of \<open>recalculateLineAndGroupIds\<close>.\<close>

definition assignLineIds :: "condition list \<Rightarrow> condition list" where
  "assignLineIds bitfieldConditions =
     map (\<lambda>(index, c).
            c\<lparr>lineId := index + 1,
              groupId := (if groupId c = lineId c then index + 1 else groupId c)\<rparr>)
         (zip [0..<length bitfieldConditions] bitfieldConditions)"

text \<open>
  One iteration of the second \<open>forEach\<close>; the state is the list and the set
  \<open>processedGroups\<close>.
\<close>

definition fixGroupStep :: "condition list \<times> nat set \<Rightarrow> nat \<Rightarrow> condition list \<times> nat set" where
  "fixGroupStep st index =
     (case st of (conds, processedGroups) \<Rightarrow>
        let cnd = conds ! index;
            currentGroupId = groupId cnd
        in if currentGroupId \<in> processedGroups \<or> groupId cnd = lineId cnd then st
           else
             let groupMembers = filter (\<lambda>c. groupId c = currentGroupId) conds
             in if length groupMembers > 1 then
                  (map (\<lambda>c. if groupId c = currentGroupId
                             then c\<lparr>groupId := lineId (maxLineIdMember groupMembers)\<rparr> else c) conds,
                   insert currentGroupId processedGroups)
                else st)"

definition recalculateLineAndGroupIds :: "condition list \<Rightarrow> condition list" where
  "recalculateLineAndGroupIds bitfieldConditions =
     fst (foldl fixGroupStep (assignLineIds bitfieldConditions, {}) [0..<length bitfieldConditions])"

definition createDefaultCondition :: condition where
  "createDefaultCondition =
     \<lparr>flag = [], type = Mem, size_field = ''8-bit'', memory = ''0x0'', cmp = ''='',
      compareType = Value, compareSize = ''8-bit'', value_field = ''0'', hits = ''0'',
      lineId = 0, groupId = 0, bytes = [], expanded = False, expandedLines = []\<rparr>"

text \<open>\<open>array.splice(start, 0, ...items)\<close>, with the clamping of \<open>start\<close>.\<close>

definition spliceInsert :: "'a list \<Rightarrow> int \<Rightarrow> 'a list \<Rightarrow> 'a list" where
  "spliceInsert xs start items =
     (let n = int (length xs);
          actualStart = nat (if start < 0 then max (n + start) 0 else min start n)
      in take actualStart xs @ items @ drop actualStart xs)"

text \<open>\<open>array.findIndex(pred)\<close>, \<open>-1\<close> when no element satisfies it.\<close>

fun findIndex :: "('a \<Rightarrow> bool) \<Rightarrow> 'a list \<Rightarrow> int" where
  "findIndex P [] = -1"
| "findIndex P (x # xs) = (if P x then 0 else (let r = findIndex P xs in if r < 0 then -1 else r + 1))"

definition addBitfieldCondition :: "condition list \<Rightarrow> condition list" where
  "addBitfieldCondition bitfieldConditions =
     recalculateLineAndGroupIds (bitfieldConditions @ [createDefaultCondition])"

definition addConditionAtIndex :: "condition list \<Rightarrow> int \<Rightarrow> condition list" where
  "addConditionAtIndex bitfieldConditions index =
     recalculateLineAndGroupIds (spliceInsert bitfieldConditions (index + 1) [createDefaultCondition])"

definition copyCondition :: "condition list \<Rightarrow> nat \<Rightarrow> condition list" where
  "copyCondition bitfieldConditions lid =
     (case find (\<lambda>c. lineId c = lid) bitfieldConditions of
        None \<Rightarrow> bitfieldConditions
      | Some cnd \<Rightarrow>
         let groupLines = getGroupLines bitfieldConditions (groupId cnd);
             lastGroupLine = maxLineIdMember groupLines;
             insertIndex = findIndex (\<lambda>c. lineId c = lineId lastGroupLine) bitfieldConditions + 1;
             copiedConditions = map (\<lambda>groupCondition.
                                       groupCondition\<lparr>lineId := 0, groupId := 0,
                                                      expanded := False, expandedLines := []\<rparr>)
                                    groupLines
         in recalculateLineAndGroupIds (spliceInsert bitfieldConditions insertIndex copiedConditions))"

text \<open>
  \<open>removeBitfieldCondition\<close>: the state is the condition list, the expansion table and
  the Map of group colours. \<open>bitfieldExpansions.delete(id)\<close> removes an entry of the Map.
\<close>

definition removeBitfieldCondition ::
  "condition list \<Rightarrow> 'e jsMap \<Rightarrow> (nat \<rightharpoonup> nat) \<Rightarrow> nat \<Rightarrow> condition list \<times> 'e jsMap \<times> (nat \<rightharpoonup> nat)" where
  "removeBitfieldCondition bitfieldConditions bitfieldExpansions linkGroupColors lid =
     (case find (\<lambda>c. lineId c = lid) bitfieldConditions of
        None \<Rightarrow> (bitfieldConditions, bitfieldExpansions, linkGroupColors)
      | Some cnd \<Rightarrow>
         let groupLines = getGroupLines bitfieldConditions (groupId cnd);
             lineIds = map lineId groupLines;
             filteredConditions = filter (\<lambda>c. lineId c \<notin> set lineIds) bitfieldConditions
         in (recalculateLineAndGroupIds filteredConditions,
             bitfieldExpansions\<lparr>mapEntries := foldl (\<lambda>m i. m(i := None)) (mapEntries bitfieldExpansions) lineIds\<rparr>,
             linkGroupColors((groupId cnd) := None)))"

section \<open>Bit compression (compression.js)\<close>

definition bitLetters :: string where
  "bitLetters = ''MNOPQRST''"

text \<open>\<open>[0-9A-F]\<close>\<close>

definition isUpperHexDigit :: "char \<Rightarrow> bool" where
  "isUpperHexDigit c = (c \<in> set ''0123456789ABCDEF'')"

text \<open>
  \<open>line.match(/(A:|B:)?([dpb~])?0x([MNOPQRST])([0-9A-F]+)/)\<close>: the expression is not
  anchored, so the match is looked for at every position from the left; at one position
  each optional group is tried first with and then without its text. The result is
  (prefix, typePrefix, bit, addr), an absent group being the empty string.
\<close>

definition matchBitCore :: "string \<Rightarrow> (char \<times> string) option" where
  "matchBitCore s =
     (if startsWith s ''0x'' then
        (case drop 2 s of
           [] \<Rightarrow> None
         | b # r \<Rightarrow> if b \<in> set bitLetters \<and> takeWhile isUpperHexDigit r \<noteq> []
                     then Some (b, takeWhile isUpperHexDigit r) else None)
      else None)"

definition matchBitTyped :: "string \<Rightarrow> (string \<times> char \<times> string) option" where
  "matchBitTyped s =
     (case (case s of [] \<Rightarrow> None
            | c # r \<Rightarrow> if c \<in> set ''dpb~'' then map_option (\<lambda>m. ([c], m)) (matchBitCore r) else None) of
        Some m \<Rightarrow> Some m
      | None \<Rightarrow> map_option (\<lambda>m. ([], m)) (matchBitCore s))"

definition matchBitAt :: "string \<Rightarrow> (string \<times> string \<times> char \<times> string) option" where
  "matchBitAt s =
     (case (if startsWith s ''A:'' \<or> startsWith s ''B:''
            then map_option (\<lambda>m. (take 2 s, m)) (matchBitTyped (drop 2 s)) else None) of
        Some m \<Rightarrow> Some m
      | None \<Rightarrow> map_option (\<lambda>m. ([], m)) (matchBitTyped s))"

fun bitMatch :: "string \<Rightarrow> (string \<times> string \<times> char \<times> string) option" where
  "bitMatch [] = matchBitAt []"
| "bitMatch (c # cs) = (case matchBitAt (c # cs) of Some m \<Rightarrow> Some m | None \<Rightarrow> bitMatch cs)"

text \<open>\<open>['M','N','O','P','Q','R','S','T'].indexOf(bit)\<close>, \<open>None\<close> for \<open>-1\<close>.\<close>

definition bitIndexOf :: "char \<Rightarrow> nat option" where
  "bitIndexOf b = (if b \<in> set bitLetters then Some (nat (findIndex (\<lambda>x. x = b) bitLetters)) else None)"

text \<open>
  A group of the first pass: a line that stands alone (\<open>bits: null\<close>), or a run of bit
  lines with its address, type prefix, bit indices, lines and flag prefixes.
\<close>

datatype lineGroup =
    Standalone string
  | BitRun (addr: string) (typePrefix: string) (bits: "nat list") (runLines: "string list") (prefixes: "string list")

definition closeGroup :: "lineGroup list \<Rightarrow> lineGroup option \<Rightarrow> lineGroup list" where
  "closeGroup groups currentGroup = (case currentGroup of None \<Rightarrow> groups | Some g \<Rightarrow> groups @ [g])"

text \<open>One iteration of the first pass; the state is (groups, currentGroup).\<close>

definition groupStep :: "lineGroup list \<times> lineGroup option \<Rightarrow> string \<Rightarrow> lineGroup list \<times> lineGroup option" where
  "groupStep st line =
     (case st of (groups, currentGroup) \<Rightarrow>
        (case bitMatch line of
           None \<Rightarrow> (closeGroup groups currentGroup @ [Standalone line], None)
         | Some (prefix, tp, bitLetter, a) \<Rightarrow>
            (case bitIndexOf bitLetter of
               None \<Rightarrow> (closeGroup groups currentGroup @ [Standalone line], None)
             | Some bitIndex \<Rightarrow>
                (case currentGroup of
                   Some (BitRun ga gt gbits glines gprefixes) \<Rightarrow>
                     if ga \<noteq> a \<or> gt \<noteq> tp
                     then (groups @ [BitRun ga gt gbits glines gprefixes],
                           Some (BitRun a tp [bitIndex] [line] [prefix]))
                     else (groups,
                           Some (BitRun ga gt (gbits @ [bitIndex]) (glines @ [line]) (gprefixes @ [prefix])))
                 | _ \<Rightarrow> (closeGroup groups currentGroup, Some (BitRun a tp [bitIndex] [line] [prefix]))))))"

definition lineGroups :: "string list \<Rightarrow> lineGroup list" where
  "lineGroups ls = (case foldl groupStep ([], None) ls of (groups, currentGroup) \<Rightarrow> closeGroup groups currentGroup)"

text \<open>
  \<open>group.bits && group.bits.length >= 5 && group.hasCompressibleFlag\<close>, the flag being
  set in the second pass from the prefix of the last line of the run.
\<close>

fun isCompressible :: "lineGroup \<Rightarrow> bool" where
  "isCompressible (Standalone l) = False"
| "isCompressible (BitRun a tp bs ls ps) = (length bs \<ge> 5 \<and> (last ps = ''A:'' \<or> last ps = ''B:''))"

fun groupLinesOf :: "lineGroup \<Rightarrow> string list" where
  "groupLinesOf (Standalone l) = [l]"
| "groupLinesOf (BitRun a tp bs ls ps) = ls"

definition missingBitsOf :: "nat list \<Rightarrow> nat list" where
  "missingBitsOf bs = filter (\<lambda>b. b \<notin> set bs) [0..<8]"

definition bitCountLine :: "string \<Rightarrow> string \<Rightarrow> string \<Rightarrow> string" where
  "bitCountLine lastLinePrefix tp a = lastLinePrefix @ tp @ ''0xK'' @ a"

definition missingLine :: "string \<Rightarrow> string \<Rightarrow> string \<Rightarrow> nat \<Rightarrow> string" where
  "missingLine lastLinePrefix tp a bitIndex =
     (if lastLinePrefix = ''B:'' then ''A:'' else ''B:'') @ tp @ ''0x'' @ [bitLetters ! bitIndex] @ a"

text \<open>What the third pass pushes for one group.\<close>

fun emitGroup :: "lineGroup \<Rightarrow> string list" where
  "emitGroup (Standalone l) = [l]"
| "emitGroup (BitRun a tp bs ls ps) =
     (if length bs \<ge> 5 \<and> (last ps = ''A:'' \<or> last ps = ''B:'') then
        (if last ps = ''B:''
         then map (missingLine (last ps) tp a) (missingBitsOf bs) @ [bitCountLine (last ps) tp a]
         else bitCountLine (last ps) tp a # map (missingLine (last ps) tp a) (missingBitsOf bs))
      else ls)"

definition compressBits :: "string list \<Rightarrow> string list" where
  "compressBits ls =
     (let groups = lineGroups ls in
      if \<not> list_ex isCompressible groups then ls
      else concat (map emitGroup groups))"

section \<open>Remember/Recall optimization (rr-optimization.js)\<close>

text \<open>\<open>s.split('_')\<close> and \<open>lines.join('_')\<close>.\<close>

fun splitUnderscore :: "string \<Rightarrow> string list" where
  "splitUnderscore [] = [[]]"
| "splitUnderscore (c # cs) =
     (if c = CHR ''_'' then [] # splitUnderscore cs
      else (case splitUnderscore cs of [] \<Rightarrow> [[c]] | w # ws \<Rightarrow> (c # w) # ws))"

fun joinUnderscore :: "string list \<Rightarrow> string" where
  "joinUnderscore [] = []"
| "joinUnderscore [l] = l"
| "joinUnderscore (l # m # ls) = l @ ''_'' @ joinUnderscore (m # ls)"

record patternInfo =
  patLines :: "string list"
  patCount :: nat
  patLength :: nat

text \<open>
  The counting loop of \<open>findBestPattern\<close>, on the lines from position \<open>i\<close> on: a match
  moves \<open>i\<close> behind the occurrence. The source calls it with \<open>patternLength \<ge> 2\<close> only
  (with 0 its loop would not advance); the guard \<open>0 < patternLength\<close> keeps the model
  total.
\<close>

function countOccurrences :: "string \<Rightarrow> nat \<Rightarrow> string list \<Rightarrow> nat" where
  "countOccurrences pattern patternLength rest =
     (if 0 < patternLength \<and> patternLength \<le> length rest then
        (if joinUnderscore (take patternLength rest) = pattern
         then Suc (countOccurrences pattern patternLength (drop patternLength rest))
         else countOccurrences pattern patternLength (drop 1 rest))
      else 0)"
  by pat_completeness auto
termination
  by (relation "measure (\<lambda>(pattern, patternLength, rest). length rest)") auto

declare countOccurrences.simps [simp del]

text \<open>
  The body of the two outer loops: \<open>patternMap\<close> is a JavaScript Map, whose iteration
  order is the order of insertion, modelled as an association list.
\<close>

definition patternStep :: "string list \<Rightarrow> (string \<times> patternInfo) list \<Rightarrow> nat \<times> nat \<Rightarrow> (string \<times> patternInfo) list" where
  "patternStep ls patternMap step =
     (case step of (patternLength, startIndex) \<Rightarrow>
        let pattern = joinUnderscore (take patternLength (drop startIndex ls)) in
        if map_of patternMap pattern \<noteq> None then patternMap
        else
          let count = countOccurrences pattern patternLength ls in
          if count \<ge> 3
          then patternMap @ [(pattern, \<lparr>patLines = take patternLength (drop startIndex ls),
                                        patCount = count, patLength = patternLength\<rparr>)]
          else patternMap)"

text \<open>
  The pairs (patternLength, startIndex) in the order of the loops:
  \<open>patternLength <= lines.length / 3\<close> is \<open>3 * patternLength \<le> length\<close>.
\<close>

definition patternSteps :: "nat \<Rightarrow> (nat \<times> nat) list" where
  "patternSteps n =
     concat (map (\<lambda>patternLength. map (\<lambda>startIndex. (patternLength, startIndex)) [0..<Suc (n - patternLength)])
                 [2..<Suc (n div 3)])"

text \<open>The selection loop: the state is (bestPattern, maxLength).\<close>

definition bestStep :: "patternInfo option \<times> nat \<Rightarrow> string \<times> patternInfo \<Rightarrow> patternInfo option \<times> nat" where
  "bestStep st entry =
     (case st of (bestPattern, maxLength) \<Rightarrow>
        if patLength (snd entry) > maxLength then (Some (snd entry), patLength (snd entry)) else st)"

definition findBestPattern :: "string list \<Rightarrow> patternInfo option" where
  "findBestPattern ls =
     (if length ls < 6 then None
      else
        let patternMap = foldl (patternStep ls) [] (patternSteps (length ls)) in
        if patternMap = [] then None
        else fst (foldl bestStep (None, 0) patternMap))"

text \<open>\<open>s.replace(pat, rep)\<close> with a string pattern: the first occurrence only.\<close>

fun replaceFirst :: "string \<Rightarrow> string \<Rightarrow> string \<Rightarrow> string" where
  "replaceFirst pat rep [] = (if pat = [] then rep else [])"
| "replaceFirst pat rep (c # cs) =
     (if startsWith (c # cs) pat then rep @ drop (length pat) (c # cs)
      else c # replaceFirst pat rep cs)"

text \<open>
  The \<open>while\<close> loop that builds \<open>optimizedLogic\<close>, on the lines from \<open>index\<close> on.
  It runs with \<open>pattern.length \<ge> 2\<close> only; the guard \<open>0 < patternLength\<close> keeps the
  model total.
\<close>

function buildOptimized :: "nat \<Rightarrow> string \<Rightarrow> string \<Rightarrow> string \<Rightarrow> string list \<Rightarrow> string" where
  "buildOptimized patternLength originalPatternString recallReplacement optimizedLogic rest =
     (if rest = [] then optimizedLogic
      else if patternLength \<le> length rest then
        (if 0 < patternLength \<and> joinUnderscore (take patternLength rest) = originalPatternString
         then buildOptimized patternLength originalPatternString recallReplacement
                (optimizedLogic @ recallReplacement @ (if drop patternLength rest \<noteq> [] then ''_'' else []))
                (drop patternLength rest)
         else buildOptimized patternLength originalPatternString recallReplacement
                (optimizedLogic @ hd rest @ (if tl rest \<noteq> [] then ''_'' else []))
                (tl rest))
      else optimizedLogic @ joinUnderscore rest)"
  by pat_completeness auto
termination
  by (relation "measure (\<lambda>(patternLength, ps, rr, acc, rest). length rest)") auto

declare buildOptimized.simps [simp del]

text \<open>\<open>s.replace(/_$/, '')\<close>\<close>

definition stripTrailingUnderscore :: "string \<Rightarrow> string" where
  "stripTrailingUnderscore s = (if s \<noteq> [] \<and> last s = CHR ''_'' then butlast s else s)"

record rrResult =
  optimizedLogic :: string
  originalLength :: nat
  optimizedLength :: nat
  savings :: int
  patternUsed :: "patternInfo option"

definition rrLines :: "string \<Rightarrow> string list" where
  "rrLines logicString = filter (\<lambda>line. trim line \<noteq> []) (splitUnderscore logicString)"

definition rrUnchanged :: "string \<Rightarrow> rrResult" where
  "rrUnchanged logicString =
     \<lparr>optimizedLogic = logicString, originalLength = length logicString,
      optimizedLength = length logicString, savings = 0, patternUsed = None\<rparr>"

definition applyRROptimization :: "string \<Rightarrow> rrResult" where
  "applyRROptimization logicString =
     (let ls = rrLines logicString in
      case findBestPattern ls of
        None \<Rightarrow> rrUnchanged logicString
      | Some pattern \<Rightarrow>
         (case matchFlag (last (patLines pattern)) of
            None \<Rightarrow> rrUnchanged logicString
          | Some originalFlag \<Rightarrow>
             let rememberLines = (patLines pattern)
                    [length (patLines pattern) - 1 := replaceFirst originalFlag ''K:'' (last (patLines pattern))];
                 rememberPattern = joinUnderscore rememberLines;
                 recallReplacement = originalFlag @ ''{recall}'';
                 originalPatternString = joinUnderscore (patLines pattern);
                 built = buildOptimized (patLength pattern) originalPatternString recallReplacement
                           (rememberPattern @ ''_'') ls;
                 result = stripTrailingUnderscore built
             in \<lparr>optimizedLogic = result, originalLength = length logicString,
                  optimizedLength = length result,
                  savings = int (length logicString) - int (length result),
                  patternUsed = Some pattern\<rparr>))"

section \<open>Concrete inputs used by the evaluations below\<close>

definition addSourceExample :: parsed_condition where
  "addSourceExample =
     \<lparr>flag = ''A:'', type = Mem, size_field = ''16-bit'', memory = ''0x1234'', cmp = [],
      compareType = Value, compareSize = ''8-bit'', value_field = ''0'', hits = []\<rparr>"

definition orNextExample :: parsed_condition where
  "orNextExample =
     \<lparr>flag = ''O:'', type = Delta, size_field = ''8-bit'', memory = ''0x1234'', cmp = ''='',
      compareType = Value, compareSize = ''8-bit'', value_field = ''5'', hits = ''0''\<rparr>"

definition recallExample :: parsed_condition where
  "recallExample =
     \<lparr>flag = [], type = Recall, size_field = [], memory = [], cmp = ''='',
      compareType = Value, compareSize = ''8-bit'', value_field = ''5'', hits = []\<rparr>"

text \<open>A condition of the list with the given flag, type, address and identifiers.\<close>

definition conditionAt :: "string \<Rightarrow> optype \<Rightarrow> string \<Rightarrow> nat \<Rightarrow> nat \<Rightarrow> condition" where
  "conditionAt f t m lid gid =
     createDefaultCondition\<lparr>flag := f, type := t, memory := m, lineId := lid, groupId := gid\<rparr>"

text \<open>The line configuration and the expansion that \<open>expandCondition\<close> creates.\<close>

definition defaultLineConfig :: "unit lineConfig" where
  "defaultLineConfig = \<lparr>customized = False, customData = None, arithmeticIncrement = []\<rparr>"

definition expansionOf :: "int \<Rightarrow> bool \<Rightarrow> nat \<Rightarrow> unit expansion" where
  "expansionOf k dc members =
     \<lparr>generatedGroups = Some k, deltaCheck = dc, lineConfigs = replicate members defaultLineConfig\<rparr>"

text \<open>The table with one expansion, stored as a property of the object.\<close>

definition tableWith :: "nat \<Rightarrow> 'e \<Rightarrow> 'e jsMap" where
  "tableWith lid e = \<lparr>mapEntries = Map.empty, ownProps = [lid \<mapsto> e]\<rparr>"

text \<open>The placeholder generators main.js passes: \<open>() => ''\<close> and \<open>() => []\<close>.\<close>

definition noArithmeticLine :: "condition \<Rightarrow> unit lineConfig \<Rightarrow> nat \<Rightarrow> string" where
  "noArithmeticLine line lineConfig groupIdx = []"

definition noCustomLines :: "condition \<Rightarrow> unit lineConfig \<Rightarrow> nat \<Rightarrow> string list" where
  "noCustomLines line lineConfig groupIdx = []"

text \<open>What an observer reads off a result: per condition, its identifiers and expansion state.\<close>

definition expansionStateOf ::
  "jsError + ('e jsMap \<times> condition list) \<Rightarrow> (nat \<times> nat \<times> bool \<times> string list) list option" where
  "expansionStateOf r =
     (case r of Inl err \<Rightarrow> None
      | Inr st \<Rightarrow> Some (map (\<lambda>c. (lineId c, groupId c, expanded c, expandedLines c)) (snd st)))"

definition idsOf :: "condition list \<Rightarrow> (string \<times> nat \<times> nat) list" where
  "idsOf cs = map (\<lambda>c. (memory c, lineId c, groupId c)) cs"

section \<open>The runs the first pass of \<open>compressBits\<close> forms\<close>

text \<open>
  What \<open>compressBits\<close> reads in a line: the address digits, type modifier, bit and flag
  its expression captures at the first match, \<open>None\<close> when there is no match. This is
  the reading of the compressor, not of the parser: the match may lie anywhere in the line and
  the address ends at the first character that is no upper-case hexadecimal digit.
\<close>

definition bitInfo :: "string \<Rightarrow> (string \<times> string \<times> nat \<times> string) option" where
  "bitInfo line =
     (case bitMatch line of
        None \<Rightarrow> None
      | Some (prefix, tp, bitLetter, a) \<Rightarrow>
         (case bitIndexOf bitLetter of None \<Rightarrow> None | Some i \<Rightarrow> Some (a, tp, i, prefix)))"

text \<open>The captured address digits and type modifier.\<close>

definition bitKey :: "string \<Rightarrow> (string \<times> string) option" where
  "bitKey line = (case bitInfo line of None \<Rightarrow> None | Some (a, tp, i, prefix) \<Rightarrow> Some (a, tp))"

definition bitOf :: "string \<Rightarrow> nat" where
  "bitOf line = (case bitInfo line of None \<Rightarrow> 0 | Some (a, tp, i, prefix) \<Rightarrow> i)"

definition flagOf :: "string \<Rightarrow> string" where
  "flagOf line = (case bitInfo line of None \<Rightarrow> [] | Some (a, tp, i, prefix) \<Rightarrow> prefix)"

text \<open>
  The partition of a line sequence into maximal runs of consecutive lines with the same
  captured address digits and type modifier; a line without a match is a run of its own.
\<close>

function maximalRuns :: "string list \<Rightarrow> string list list" where
  "maximalRuns [] = []"
| "maximalRuns (l # ls) =
     (case bitKey l of
        None \<Rightarrow> [l] # maximalRuns ls
      | Some k \<Rightarrow> (l # takeWhile (\<lambda>x. bitKey x = Some k) ls)
                  # maximalRuns (dropWhile (\<lambda>x. bitKey x = Some k) ls))"
  by pat_completeness auto
termination
  by (relation "measure length") (auto simp: length_dropWhile_le less_Suc_eq_le)

text \<open>
  A run is compressible: at least 5 members, and the flag captured in the last line is
  \<open>A:\<close> or \<open>B:\<close>.
\<close>

definition runCompressible :: "string list \<Rightarrow> bool" where
  "runCompressible r =
     (r \<noteq> [] \<and> bitKey (hd r) \<noteq> None \<and> 5 \<le> length r
      \<and> (flagOf (last r) = ''A:'' \<or> flagOf (last r) = ''B:''))"

text \<open>The bits not captured in any line of a run.\<close>

definition runMissingBits :: "string list \<Rightarrow> nat list" where
  "runMissingBits r = filter (\<lambda>b. b \<notin> set (map bitOf r)) [0..<8]"

text \<open>
  The rewrite of a run: the aggregate BitCount line with the flag and modifier of the last
  line, and one corrective single-bit line with the opposite flag per absent bit; the
  aggregate first for an \<open>A:\<close> run, last for a \<open>B:\<close> run.
\<close>

definition runRewritten :: "string list \<Rightarrow> string list" where
  "runRewritten r =
     (case bitKey (hd r) of
        None \<Rightarrow> r
      | Some (a, tp) \<Rightarrow>
         let f = flagOf (last r);
             aggregate = f @ tp @ ''0xK'' @ a;
             corrections = map (\<lambda>b. (if f = ''A:'' then ''B:'' else ''A:'') @ tp @ ''0x'' @ [bitLetters ! b] @ a)
                               (runMissingBits r)
         in if f = ''A:'' then aggregate # corrections else corrections @ [aggregate])"

definition compressedRun :: "string list \<Rightarrow> string list" where
  "compressedRun r = (if runCompressible r then runRewritten r else r)"

text \<open>The group the first pass of \<open>compressBits\<close> builds from a run.\<close>

definition groupOfRun :: "string list \<Rightarrow> lineGroup" where
  "groupOfRun r =
     (case bitKey (hd r) of
        None \<Rightarrow> Standalone (hd r)
      | Some (a, tp) \<Rightarrow> BitRun a tp (map bitOf r) r (map flagOf r))"

text \<open>The first pass as a recursion on the lines that are left, from the current group.\<close>

fun groupsFrom :: "lineGroup option \<Rightarrow> string list \<Rightarrow> lineGroup list" where
  "groupsFrom cur [] = closeGroup [] cur"
| "groupsFrom cur (l # ls) = fst (groupStep ([], cur) l) @ groupsFrom (snd (groupStep ([], cur) l)) ls"

section \<open>Single-bit comparison lines, in the words of the specification\<close>

definition bitSizes :: "string list" where
  "bitSizes = [''Bit0'', ''Bit1'', ''Bit2'', ''Bit3'', ''Bit4'', ''Bit5'', ''Bit6'', ''Bit7'']"

text \<open>
  A single-bit comparison line is a line the parser reads as a condition whose left operand
  has one of the eight bit sizes. Its address is the memory of that operand, its type modifier
  the letter of the operand's type, its bit the index of the size, its flag the flag of the
  condition.
\<close>

definition singleBitLine :: "string \<Rightarrow> (string \<times> string \<times> nat \<times> string) option" where
  "singleBitLine line =
     (case parseLineToCondition line of
        None \<Rightarrow> None
      | Some c \<Rightarrow>
          if size_field c \<in> set bitSizes
          then Some (memory c, typeLetter (type c), nat (findIndex (\<lambda>z. z = size_field c) bitSizes), flag c)
          else None)"

text \<open>The address and the type modifier of a single-bit comparison line.\<close>

definition singleBitKey :: "string \<Rightarrow> (string \<times> string) option" where
  "singleBitKey line = (case singleBitLine line of None \<Rightarrow> None | Some (m, tp, i, f) \<Rightarrow> Some (m, tp))"

text \<open>
  The partition of a line sequence into maximal runs of consecutive single-bit comparison
  lines on the same address with the same type modifier; a line that is no single-bit
  comparison line is a run of its own.
\<close>

function singleBitRuns :: "string list \<Rightarrow> string list list" where
  "singleBitRuns [] = []"
| "singleBitRuns (l # ls) =
     (case singleBitKey l of
        None \<Rightarrow> [l] # singleBitRuns ls
      | Some k \<Rightarrow> (l # takeWhile (\<lambda>x. singleBitKey x = Some k) ls)
                  # singleBitRuns (dropWhile (\<lambda>x. singleBitKey x = Some k) ls))"
  by pat_completeness auto
termination
  by (relation "measure length") (auto simp: length_dropWhile_le less_Suc_eq_le)

text \<open>
  The parser keeps the \<open>0x\<close> in front of the digits of an address. A line is read by
  \<open>compressBits\<close> as by the parser when both find no single-bit operand in it, or both
  find the same address and type modifier.
\<close>

definition asMemory :: "string \<times> string \<Rightarrow> string \<times> string" where
  "asMemory k = (''0x'' @ fst k, snd k)"

definition readsAsParser :: "string \<Rightarrow> bool" where
  "readsAsParser line \<longleftrightarrow> singleBitKey line = map_option asMemory (bitKey line)"

section \<open>Remember/Recall rewriting, in the words of the specification\<close>

text \<open>
  The number of occurrences of a pattern in a line sequence, counted from the left without
  overlap: a match consumes its lines.
\<close>

function occurrences :: "string list \<Rightarrow> string list \<Rightarrow> nat" where
  "occurrences pat ls =
     (if pat = [] \<or> length ls < length pat then 0
      else if take (length pat) ls = pat then Suc (occurrences pat (drop (length pat) ls))
      else occurrences pat (tl ls))"
  by pat_completeness auto
termination
proof (relation "measure (\<lambda>(pat, ls). length ls)")
  fix pat ls :: "string list"
  assume "\<not> (pat = [] \<or> length ls < length pat)"
  then have "0 < length pat" "0 < length ls" by (cases pat; cases ls; simp)+
  then show "((pat, drop (length pat) ls), (pat, ls)) \<in> measure (\<lambda>(pat, ls). length ls)"
    and "((pat, tl ls), (pat, ls)) \<in> measure (\<lambda>(pat, ls). length ls)"
    by simp_all
qed simp

declare occurrences.simps [simp del]

text \<open>The candidate pattern of a length at a start offset.\<close>

definition candidate :: "string list \<Rightarrow> nat \<Rightarrow> nat \<Rightarrow> string list" where
  "candidate ls patternLength startIndex = take patternLength (drop startIndex ls)"

text \<open>
  A candidate qualifies: 2 lines or more, at most a third of the sequence, inside the
  sequence, occurring at least 3 times.
\<close>

definition qualifies :: "string list \<Rightarrow> nat \<Rightarrow> nat \<Rightarrow> bool" where
  "qualifies ls patternLength startIndex =
     (2 \<le> patternLength \<and> 3 * patternLength \<le> length ls \<and> startIndex + patternLength \<le> length ls
      \<and> 3 \<le> occurrences (candidate ls patternLength startIndex) ls)"

text \<open>
  The walk over the sequence from the left: a contiguous run equal to the pattern becomes
  the one placeholder line, every other line is copied.
\<close>

function recallWalk :: "string list \<Rightarrow> string \<Rightarrow> string list \<Rightarrow> string list" where
  "recallWalk pat placeholder ls =
     (if ls = [] then []
      else if pat \<noteq> [] \<and> take (length pat) ls = pat
        then placeholder # recallWalk pat placeholder (drop (length pat) ls)
      else hd ls # recallWalk pat placeholder (tl ls))"
  by pat_completeness auto
termination
  by (relation "measure (\<lambda>(pat, placeholder, ls). length ls)") auto

declare recallWalk.simps [simp del]

text \<open>The remember version of a pattern: the flag of its last line replaced by \<open>K:\<close>.\<close>

definition rememberVersion :: "string list \<Rightarrow> string list" where
  "rememberVersion pat = butlast pat @ [''K:'' @ drop 2 (last pat)]"

text \<open>The lines of a logic string, and the lines that can be lines of one.\<close>

definition underscoreFree :: "string list \<Rightarrow> bool" where
  "underscoreFree ls = list_all (\<lambda>l. CHR ''_'' \<notin> set l) ls"

text \<open>What the two outer loops have put into the map after some of their iterations.\<close>

definition patternMapInv :: "string list \<Rightarrow> (string \<times> patternInfo) list \<Rightarrow> (nat \<times> nat) set \<Rightarrow> bool" where
  "patternMapInv ls pm D \<longleftrightarrow>
     (\<forall>e \<in> set pm. \<exists>s \<in> D. fst e = joinUnderscore (candidate ls (fst s) (snd s))
                        \<and> patLines (snd e) = candidate ls (fst s) (snd s)
                        \<and> patLength (snd e) = fst s
                        \<and> 3 \<le> countOccurrences (fst e) (fst s) ls)
     \<and> (\<forall>s \<in> D. 3 \<le> countOccurrences (joinUnderscore (candidate ls (fst s) (snd s))) (fst s) ls
               \<longrightarrow> joinUnderscore (candidate ls (fst s) (snd s)) \<in> fst ` set pm)"

text \<open>
  What a condition carries apart from its two identifiers.
\<close>

definition contentOf :: "condition \<Rightarrow> parsed_condition \<times> string \<times> bool \<times> string list" where
  "contentOf c = (parsed_condition.truncate c, bytes c, expanded c, expandedLines c)"

section \<open>Properties\<close>

lemmas char_class_defs = isWhitespace_def isDigit_def isUpper_def isLower_def isLetter_def
  isWordChar_def atWordBoundary_def lookaheadOk_def startsWith_def isHexDigit_def

lemma map_snd_zip_upt: "map (\<lambda>p. f (snd p)) (zip [0..<length xs] xs) = map f xs"
  by (rule nth_equalityI) auto

lemma map_fst_zip_upt: "map (\<lambda>p. g (fst p)) (zip [0..<length xs] xs) = map g [0..<length xs]"
  by (rule nth_equalityI) auto

lemma concat_map_concat: "concat (map f (concat xss)) = concat (map (\<lambda>xs. concat (map f xs)) xss)"
  by (induction xss) auto

lemma length_concat_replicate: "length (concat (replicate n xs)) = n * length xs"
  by (induction n) auto

subsection \<open>The Delta/Mem pass\<close>

lemma applyDeltaMemCheck_add_source_line:
  fixes c :: "'a parsed_condition_scheme"
  assumes "flag c = ''A:''" "type c = Mem" "size_field c = ''16-bit''" "memory c = ''0x1234''"
    and "cmp c = []" "hits c = []"
  shows "applyDeltaMemCheck c [convertBitfieldConditionToText c]
           = [''A:d0x1234'', ''0=0'', ''A:0x1234'', ''0=0'']"
  using assms
  by (simp add: applyDeltaMemCheck_def convertBitfieldConditionToText_def isDeltaOrMem_def typeLetter_def
      withSizePrefix_def sizePrefixFor_def sizeMapForText_def deltaVersion_def memVersion_def char_class_defs)

lemma applyDeltaMemCheck_add_address_line:
  fixes d :: "'b parsed_condition_scheme"
  assumes "isDeltaOrMem (type d) \<or> isDeltaOrMem (compareType d)"
    and "i < length ls" "startsWith (ls ! i) ''I:''"
  shows "let r = applyDeltaMemCheck d ls; h = length r div 2
         in length r = 2 * h \<and> i < h \<and> take h r ! i = ls ! i \<and> drop h r ! i = ls ! i"
  using assms
  by (auto simp add: applyDeltaMemCheck_def Let_def nth_append)

text \<open>
  Claim C6. For a condition with the Add Source flag \<open>A:\<close>, type Mem, size 16-bit and
  address \<open>0x1234\<close> (no comparator and no hits, as an operand flag has them), the pass applied
  to its serialization returns the delta copy, the sentinel \<open>0=0\<close>, the mem copy and the
  sentinel again. For every condition and line sequence on which the pass runs, the result
  has two halves of equal length, and a line that starts with the Add Address flag \<open>I:\<close> is
  found unchanged at its position in the first (delta) half and in the second (mem) half;
  when the pass does not run the sequence is returned as it is.
\<close>

theorem applyDeltaMemCheck_example_and_add_address:
  fixes c :: "'a parsed_condition_scheme" and d :: "'b parsed_condition_scheme"
  shows "(flag c = ''A:'' \<and> type c = Mem \<and> size_field c = ''16-bit'' \<and> memory c = ''0x1234''
            \<and> cmp c = [] \<and> hits c = []
          \<longrightarrow> applyDeltaMemCheck c [convertBitfieldConditionToText c]
                = [''A:d0x1234'', ''0=0'', ''A:0x1234'', ''0=0''])
       \<and> ((isDeltaOrMem (type d) \<or> isDeltaOrMem (compareType d)) \<and> i < length ls
            \<and> startsWith (ls ! i) ''I:''
          \<longrightarrow> (let r = applyDeltaMemCheck d ls; h = length r div 2
               in length r = 2 * h \<and> i < h \<and> take h r ! i = ls ! i \<and> drop h r ! i = ls ! i))
       \<and> (\<not> isDeltaOrMem (type d) \<and> \<not> isDeltaOrMem (compareType d)
          \<longrightarrow> applyDeltaMemCheck d ls = ls)"
proof (intro conjI impI)
  assume "flag c = ''A:'' \<and> type c = Mem \<and> size_field c = ''16-bit'' \<and> memory c = ''0x1234''
            \<and> cmp c = [] \<and> hits c = []"
  then show "applyDeltaMemCheck c [convertBitfieldConditionToText c]
                = [''A:d0x1234'', ''0=0'', ''A:0x1234'', ''0=0'']"
    using applyDeltaMemCheck_add_source_line [of c] by blast
next
  assume "(isDeltaOrMem (type d) \<or> isDeltaOrMem (compareType d)) \<and> i < length ls
            \<and> startsWith (ls ! i) ''I:''"
  then show "let r = applyDeltaMemCheck d ls; h = length r div 2
               in length r = 2 * h \<and> i < h \<and> take h r ! i = ls ! i \<and> drop h r ! i = ls ! i"
    using applyDeltaMemCheck_add_address_line [of d i ls] by blast
next
  assume "\<not> isDeltaOrMem (type d) \<and> \<not> isDeltaOrMem (compareType d)"
  then show "applyDeltaMemCheck d ls = ls"
    by (simp add: applyDeltaMemCheck_def)
qed

theorem applyDeltaMemCheck_example_and_add_address_witness:
  "(flag addSourceExample = ''A:'' \<and> type addSourceExample = Mem
      \<and> size_field addSourceExample = ''16-bit'' \<and> memory addSourceExample = ''0x1234''
      \<and> cmp addSourceExample = [] \<and> hits addSourceExample = [])
   \<and> applyDeltaMemCheck addSourceExample [convertBitfieldConditionToText addSourceExample]
       = [''A:d0x1234'', ''0=0'', ''A:0x1234'', ''0=0'']
   \<and> ((isDeltaOrMem (type addSourceExample) \<or> isDeltaOrMem (compareType addSourceExample))
       \<and> (0::nat) < length [''I:0xH10'', ''A:0x1234'']
       \<and> startsWith ([''I:0xH10'', ''A:0x1234''] ! 0) ''I:'')
   \<and> (let r = applyDeltaMemCheck addSourceExample [''I:0xH10'', ''A:0x1234'']; h = length r div 2
       in length r = 2 * h \<and> 0 < h \<and> take h r ! 0 = [''I:0xH10'', ''A:0x1234''] ! 0
          \<and> drop h r ! 0 = [''I:0xH10'', ''A:0x1234''] ! 0)
   \<and> (\<not> isDeltaOrMem (type recallExample) \<and> \<not> isDeltaOrMem (compareType recallExample))
   \<and> applyDeltaMemCheck recallExample [''I:0xH10'', ''A:0x1234''] = [''I:0xH10'', ''A:0x1234'']"
proof -
  have h1: "flag addSourceExample = ''A:'' \<and> type addSourceExample = Mem
      \<and> size_field addSourceExample = ''16-bit'' \<and> memory addSourceExample = ''0x1234''
      \<and> cmp addSourceExample = [] \<and> hits addSourceExample = []"
    by (simp add: addSourceExample_def)
  have h2: "(isDeltaOrMem (type addSourceExample) \<or> isDeltaOrMem (compareType addSourceExample))
       \<and> (0::nat) < length [''I:0xH10'', ''A:0x1234'']
       \<and> startsWith ([''I:0xH10'', ''A:0x1234''] ! 0) ''I:''"
    by (simp add: addSourceExample_def isDeltaOrMem_def startsWith_def)
  have h3: "\<not> isDeltaOrMem (type recallExample) \<and> \<not> isDeltaOrMem (compareType recallExample)"
    by (simp add: recallExample_def isDeltaOrMem_def)
  from h1 h2
    applyDeltaMemCheck_example_and_add_address
      [of addSourceExample addSourceExample 0 "[''I:0xH10'', ''A:0x1234'']"]
  have a: "applyDeltaMemCheck addSourceExample [convertBitfieldConditionToText addSourceExample]
       = [''A:d0x1234'', ''0=0'', ''A:0x1234'', ''0=0'']"
    and b: "let r = applyDeltaMemCheck addSourceExample [''I:0xH10'', ''A:0x1234'']; h = length r div 2
       in length r = 2 * h \<and> 0 < h \<and> take h r ! 0 = [''I:0xH10'', ''A:0x1234''] ! 0
          \<and> drop h r ! 0 = [''I:0xH10'', ''A:0x1234''] ! 0"
    by blast+
  from h3
    applyDeltaMemCheck_example_and_add_address
      [of addSourceExample recallExample 0 "[''I:0xH10'', ''A:0x1234'']"]
  have c: "applyDeltaMemCheck recallExample [''I:0xH10'', ''A:0x1234''] = [''I:0xH10'', ''A:0x1234'']"
    by blast
  from h1 h2 h3 a b c show ?thesis by blast
qed

subsection \<open>The And/Or-Next pass\<close>

text \<open>
  Claim C2. Evaluation of \<open>applyAndOrNextCheck\<close> on two repetitions of an Or-Next line with
  a Delta operand: in the and-next variant the first line gets the flag \<open>N:\<close> and loses its
  Delta modifier, but its comparator \<open>=\<close> is still \<open>=\<close>; in the or-next variant it keeps
  \<open>O:\<close> and \<open>=\<close>. On a Mem operand with \<open>>\<close> neither the modifier nor the comparator
  changes, and \<open><=\<close> becomes \<open>>\<close>. The last line of each variant is unchanged.
\<close>

theorem applyAndOrNextCheck_does_not_invert:
  "applyAndOrNextCheck orNextExample [''O:d0xH1234=5'', ''O:d0xH1235=5'']
     = [''N:0xH1234=5'', ''O:d0xH1235=5'', ''O:0xH1234=5'', ''O:d0xH1235=5'']
   \<and> applyAndOrNextCheck orNextExample [''O:0xH1234>5'', ''N:0xH1234<=5'', ''O:0xH1236>5'']
     = [''N:0xH1234>5'', ''N:0xH1234>5'', ''O:0xH1236>5'',
        ''O:0xH1234>5'', ''O:0xH1234>5'', ''O:0xH1236>5'']"
  by code_simp

subsection \<open>The grammar codec\<close>

text \<open>
  Claim C3. Evaluation of the round trip on a condition the parser produces from a line
  whose left operand is \<open>{recall}\<close>: the serializer writes \<open>{recall}\<close> for a Recall
  operand on the right only, so the left operand is lost, and the serialization
  (\<open>=5\<close>, respectively \<open>I:\<close>) is a line the parser rejects.
\<close>

theorem recall_left_operand_round_trip:
  "parseLineToCondition ''{recall}=5'' = Some recallExample
   \<and> convertBitfieldConditionToText recallExample = ''=5''
   \<and> parseLineToCondition (convertBitfieldConditionToText recallExample) = None
   \<and> map_option convertBitfieldConditionToText (parseLineToCondition ''I:{recall}'') = Some ''I:''
   \<and> parseLineToCondition ''I:'' = None"
  by code_simp

subsection \<open>Confirming an expansion\<close>

lemma pushAll_Inr:
  "(\<And>x. x \<in> set xs \<Longrightarrow> f x = Inr (g x)) \<Longrightarrow> pushAll f xs = Inr (concat (map g xs))"
  by (induction xs) auto

lemma expansionSteps_member:
  "(gi, li, l) \<in> set (expansionSteps k gl) \<Longrightarrow> li < length gl \<and> l = gl ! li"
  by (auto simp: expansionSteps_def set_zip)

lemma concat_expansionSteps:
  "concat (map (\<lambda>(gi, li, l). [tt l]) (expansionSteps k gl)) = concat (replicate (nat k) (map tt gl))"
proof -
  have "map (\<lambda>(li, l). [tt l]) (zip [0..<length gl] gl) = map (\<lambda>p. [tt (snd p)]) (zip [0..<length gl] gl)"
    by (simp add: case_prod_unfold)
  also have "\<dots> = map (\<lambda>l. [tt l]) gl"
    by (rule map_snd_zip_upt)
  finally have one: "concat (map (\<lambda>(li, l). [tt l]) (zip [0..<length gl] gl)) = map tt gl"
    by simp
  have "concat (map (\<lambda>(gi, li, l). [tt l]) (expansionSteps k gl))
        = concat (map (\<lambda>g. map tt gl) [0..<nat k])"
    unfolding expansionSteps_def by (simp add: concat_map_concat comp_def one del: upt.simps)
  also have "\<dots> = concat (replicate (nat k) (map tt gl))"
    by (simp add: map_replicate_const)
  finally show ?thesis .
qed

lemma length_applyDeltaMemCheck:
  "isDeltaOrMem (type c) \<or> isDeltaOrMem (compareType c)
   \<Longrightarrow> 2 * length L \<le> length (applyDeltaMemCheck c L)"
  by (auto simp: applyDeltaMemCheck_def Let_def)

lemma length_applyAndOrNextCheck:
  "isDeltaOrMem (type c) \<or> isDeltaOrMem (compareType c)
   \<Longrightarrow> length (applyAndOrNextCheck c L) = 2 * length L"
  by (auto simp: applyAndOrNextCheck_def Let_def)

lemma afterDeltaMemCheck_unchanged:
  assumes "\<not> (deltaMemApplies e gl
              \<and> list_ex (\<lambda>l. flag l = ''A:'' \<or> flag l = ''B:'' \<or> flag l = ''N:'' \<or> flag l = ''O:'') gl
              \<and> (isDeltaOrMem (type (last gl)) \<or> isDeltaOrMem (compareType (last gl))))"
  shows "afterDeltaMemCheck e gl L = L"
  using assms
  by (auto simp: afterDeltaMemCheck_def applyDeltaMemCheck_def applyAndOrNextCheck_def list_ex_iff)

lemma afterDeltaMemCheck_doubles:
  assumes "deltaMemApplies e gl"
    and "list_ex (\<lambda>l. flag l = ''A:'' \<or> flag l = ''B:'' \<or> flag l = ''N:'' \<or> flag l = ''O:'') gl"
    and "isDeltaOrMem (type (last gl)) \<or> isDeltaOrMem (compareType (last gl))"
  shows "2 * length L \<le> length (afterDeltaMemCheck e gl L)"
proof (cases "list_ex (\<lambda>l. flag l = ''A:'' \<or> flag l = ''B:'') gl")
  case True
  then show ?thesis
    using assms(1) length_applyDeltaMemCheck[OF assms(3), of L]
    by (simp add: afterDeltaMemCheck_def)
next
  case False
  with assms(2) have "list_ex (\<lambda>l. flag l = ''N:'' \<or> flag l = ''O:'') gl"
    by (auto simp: list_ex_iff)
  with False show ?thesis
    using assms(1) length_applyAndOrNextCheck[OF assms(3), of L]
    by (simp add: afterDeltaMemCheck_def)
qed

lemma find_in_group:
  assumes "find (\<lambda>c. lineId c = eid) cs = Some cnd"
  shows "getGroupLines cs (groupId cnd) \<noteq> []"
proof -
  from assms have "cnd \<in> set cs"
    by (auto simp: find_Some_iff)
  then have "cnd \<in> set (getGroupLines cs (groupId cnd))"
    by (simp add: getGroupLines_def)
  then show ?thesis by auto
qed

text \<open>
  Claim C9, as the source has it. Evaluation on a two-member group (line 1 and its leader,
  line 2): after the confirmation the non-leader, line 1, is marked expanded and holds the
  two generated lines, as the leader does.
\<close>

theorem confirmExpansion_non_leader_counterexample:
  "expansionStateOf (confirmExpansion (tableWith 2 (expansionOf 1 False 2))
       [conditionAt ''N:'' Mem ''0x10'' 1 2, conditionAt [] Mem ''0x20'' 2 2] 2
       noArithmeticLine noCustomLines convertBitfieldConditionToText)
   = Some [(1, 2, True, [''N:0xH10=0'', ''0xH20=0'']), (2, 2, True, [''N:0xH10=0'', ''0xH20=0''])]"
  by code_simp

text \<open>
  Claim C9, amended. When the confirmation of an expansion succeeds, the two loops have
  generated a sequence of lines for the group of the expanded line, and every member of that
  group, leader or not, is marked expanded and holds these generated lines, as the
  Delta/Mem or And/Or-Next pass returns them; the conditions of the other groups are
  unchanged.
\<close>

theorem confirmExpansion_marks_every_member:
  assumes "confirmExpansion ex cs eid ga gc tt = Inr r"
    and "ownProps ex eid = Some e"
    and "find (\<lambda>c. lineId c = eid) cs = Some cnd"
  shows "\<exists>generated.
            pushAll (linesToAdd ga gc tt e)
               (expansionSteps (generatedGroupsOr1 e) (getGroupLines cs (groupId cnd))) = Inr generated
            \<and> length (snd r) = length cs
            \<and> (\<forall>i < length cs.
                  (groupId (cs ! i) = groupId cnd
                     \<longrightarrow> snd r ! i
                          = (cs ! i)\<lparr>expanded := True,
                                     expandedLines := afterDeltaMemCheck e (getGroupLines cs (groupId cnd)) generated\<rparr>)
                  \<and> (groupId (cs ! i) \<noteq> groupId cnd \<longrightarrow> snd r ! i = cs ! i))"
  using assms
  by (auto simp: confirmExpansion_def Let_def split: sum.splits)

theorem confirmExpansion_marks_every_member_witness:
  "confirmExpansion (tableWith 2 (expansionOf 1 False 2))
       [conditionAt ''N:'' Mem ''0x10'' 1 2, conditionAt [] Mem ''0x20'' 2 2] 2
       noArithmeticLine noCustomLines convertBitfieldConditionToText
     = Inr (projr (confirmExpansion (tableWith 2 (expansionOf 1 False 2))
       [conditionAt ''N:'' Mem ''0x10'' 1 2, conditionAt [] Mem ''0x20'' 2 2] 2
       noArithmeticLine noCustomLines convertBitfieldConditionToText))
   \<and> ownProps (tableWith 2 (expansionOf 1 False 2)) 2 = Some (expansionOf 1 False 2)
   \<and> find (\<lambda>c. lineId c = 2) [conditionAt ''N:'' Mem ''0x10'' 1 2, conditionAt [] Mem ''0x20'' 2 2]
       = Some (conditionAt [] Mem ''0x20'' 2 2)
   \<and> (\<exists>generated.
         pushAll (linesToAdd noArithmeticLine noCustomLines convertBitfieldConditionToText (expansionOf 1 False 2))
            (expansionSteps (generatedGroupsOr1 (expansionOf 1 False 2))
               (getGroupLines [conditionAt ''N:'' Mem ''0x10'' 1 2, conditionAt [] Mem ''0x20'' 2 2]
                  (groupId (conditionAt [] Mem ''0x20'' 2 2)))) = Inr generated
         \<and> generated = [''N:0xH10=0'', ''0xH20=0'']
         \<and> afterDeltaMemCheck (expansionOf 1 False 2)
              (getGroupLines [conditionAt ''N:'' Mem ''0x10'' 1 2, conditionAt [] Mem ''0x20'' 2 2]
                 (groupId (conditionAt [] Mem ''0x20'' 2 2))) generated = [''N:0xH10=0'', ''0xH20=0'']
         \<and> length (snd (projr (confirmExpansion (tableWith 2 (expansionOf 1 False 2))
                [conditionAt ''N:'' Mem ''0x10'' 1 2, conditionAt [] Mem ''0x20'' 2 2] 2
                noArithmeticLine noCustomLines convertBitfieldConditionToText)))
            = length [conditionAt ''N:'' Mem ''0x10'' 1 2, conditionAt [] Mem ''0x20'' 2 2]
         \<and> (\<forall>i < length [conditionAt ''N:'' Mem ''0x10'' 1 2, conditionAt [] Mem ''0x20'' 2 2].
                (groupId ([conditionAt ''N:'' Mem ''0x10'' 1 2, conditionAt [] Mem ''0x20'' 2 2] ! i)
                   = groupId (conditionAt [] Mem ''0x20'' 2 2)
                 \<longrightarrow> snd (projr (confirmExpansion (tableWith 2 (expansionOf 1 False 2))
                            [conditionAt ''N:'' Mem ''0x10'' 1 2, conditionAt [] Mem ''0x20'' 2 2] 2
                            noArithmeticLine noCustomLines convertBitfieldConditionToText)) ! i
                     = ([conditionAt ''N:'' Mem ''0x10'' 1 2, conditionAt [] Mem ''0x20'' 2 2] ! i)
                          \<lparr>expanded := True,
                           expandedLines := afterDeltaMemCheck (expansionOf 1 False 2)
                              (getGroupLines [conditionAt ''N:'' Mem ''0x10'' 1 2, conditionAt [] Mem ''0x20'' 2 2]
                                 (groupId (conditionAt [] Mem ''0x20'' 2 2))) generated\<rparr>)
                \<and> (groupId ([conditionAt ''N:'' Mem ''0x10'' 1 2, conditionAt [] Mem ''0x20'' 2 2] ! i)
                   \<noteq> groupId (conditionAt [] Mem ''0x20'' 2 2)
                 \<longrightarrow> snd (projr (confirmExpansion (tableWith 2 (expansionOf 1 False 2))
                            [conditionAt ''N:'' Mem ''0x10'' 1 2, conditionAt [] Mem ''0x20'' 2 2] 2
                            noArithmeticLine noCustomLines convertBitfieldConditionToText)) ! i
                     = [conditionAt ''N:'' Mem ''0x10'' 1 2, conditionAt [] Mem ''0x20'' 2 2] ! i)))"
proof -
  let ?cs = "[conditionAt ''N:'' Mem ''0x10'' 1 2, conditionAt [] Mem ''0x20'' 2 2]"
  let ?e = "expansionOf 1 False 2"
  let ?cnd = "conditionAt [] Mem ''0x20'' 2 2"
  let ?r = "confirmExpansion (tableWith 2 ?e) ?cs 2
       noArithmeticLine noCustomLines convertBitfieldConditionToText"
  have "expansionStateOf ?r \<noteq> None"
    by code_simp
  then have h1: "?r = Inr (projr ?r)"
    by (cases ?r) (simp_all add: expansionStateOf_def)
  have h2: "ownProps (tableWith 2 ?e) 2 = Some ?e"
    by (simp add: tableWith_def)
  have h3: "find (\<lambda>c. lineId c = 2) ?cs = Some ?cnd"
    by (simp add: conditionAt_def createDefaultCondition_def)
  have g: "pushAll (linesToAdd noArithmeticLine noCustomLines convertBitfieldConditionToText ?e)
            (expansionSteps (generatedGroupsOr1 ?e) (getGroupLines ?cs (groupId ?cnd)))
           = Inr [''N:0xH10=0'', ''0xH20=0'']"
    by code_simp
  have a: "afterDeltaMemCheck ?e (getGroupLines ?cs (groupId ?cnd)) [''N:0xH10=0'', ''0xH20=0'']
           = [''N:0xH10=0'', ''0xH20=0'']"
    by code_simp
  from confirmExpansion_marks_every_member [OF h1 h2 h3] obtain generated where
    c: "pushAll (linesToAdd noArithmeticLine noCustomLines convertBitfieldConditionToText ?e)
            (expansionSteps (generatedGroupsOr1 ?e) (getGroupLines ?cs (groupId ?cnd))) = Inr generated"
    and d: "length (snd (projr ?r)) = length ?cs"
    and f: "\<forall>i < length ?cs.
                  (groupId (?cs ! i) = groupId ?cnd
                     \<longrightarrow> snd (projr ?r) ! i
                          = (?cs ! i)\<lparr>expanded := True,
                                     expandedLines := afterDeltaMemCheck ?e (getGroupLines ?cs (groupId ?cnd)) generated\<rparr>)
                  \<and> (groupId (?cs ! i) \<noteq> groupId ?cnd \<longrightarrow> snd (projr ?r) ! i = ?cs ! i)"
    by blast
  from c g have eq: "generated = [''N:0xH10=0'', ''0xH20=0'']" by simp
  have a': "afterDeltaMemCheck ?e (getGroupLines ?cs (groupId ?cnd)) generated = [''N:0xH10=0'', ''0xH20=0'']"
    using a eq by simp
  show ?thesis
    using h1 h2 h3 c eq a' d f by blast
qed

text \<open>
  Claim C7, as stated. Evaluation on a one-member Add Source group with a Mem operand, one
  repetition, no custom selection and no increment, the Delta/Mem check switched on (as a
  new expansion has it): the serialization of the member is \<open>A:0xH10\<close>, and the
  confirmation stores four lines, not one.
\<close>

theorem confirmExpansion_delta_check_counterexample:
  "convertBitfieldConditionToText (conditionAt ''A:'' Mem ''0x10'' 1 1\<lparr>cmp := []\<rparr>) = ''A:0xH10''
   \<and> expansionStateOf (confirmExpansion (tableWith 1 (expansionOf 1 True 1))
       [conditionAt ''A:'' Mem ''0x10'' 1 1\<lparr>cmp := []\<rparr>] 1
       noArithmeticLine noCustomLines convertBitfieldConditionToText)
     = Some [(1, 1, True, [''A:d0xH10'', ''0=0'', ''A:0xH10'', ''0=0''])]"
  by code_simp

text \<open>
  Claim C7, amended. For a group of m conditions and a repetition count k \<ge> 1, when every
  member has a line configuration, no member has a custom selection and no member has a
  non-blank arithmetic increment, the confirmation succeeds and every member of the group
  holds exactly k * m lines, the ordinary serializations of the members, in the order of the
  group, repeated k times, unless all of the following hold: the Delta/Mem check is switched
  on, some member has a Delta or Mem operand, some member carries \<open>A:\<close>, \<open>B:\<close>,
  \<open>N:\<close> or \<open>O:\<close>, and the last member of the group has a Delta or Mem operand.
  In that case the lines have gone through the Delta/Mem or the And/Or-Next pass, and every
  member holds more than k * m lines.
\<close>

theorem confirmExpansion_plain_copies:
  assumes tab: "ownProps ex eid = Some e"
    and fnd: "find (\<lambda>c. lineId c = eid) cs = Some cnd"
    and cfg: "length (getGroupLines cs (groupId cnd)) \<le> length (lineConfigs e)"
    and plain: "\<forall>i < length (getGroupLines cs (groupId cnd)).
                  \<not> (customized (lineConfigs e ! i) \<and> customData (lineConfigs e ! i) \<noteq> None)
                  \<and> trim (arithmeticIncrement (lineConfigs e ! i)) = []"
    and k: "generatedGroups e = Some k" "1 \<le> k"
  shows "\<exists>ex' cs'. confirmExpansion ex cs eid ga gc convertBitfieldConditionToText = Inr (ex', cs')
           \<and> length cs' = length cs
           \<and> (\<forall>i < length cs. groupId (cs ! i) = groupId cnd \<longrightarrow>
                 (if deltaMemApplies e (getGroupLines cs (groupId cnd))
                     \<and> list_ex (\<lambda>l. flag l = ''A:'' \<or> flag l = ''B:'' \<or> flag l = ''N:'' \<or> flag l = ''O:'')
                          (getGroupLines cs (groupId cnd))
                     \<and> (isDeltaOrMem (type (last (getGroupLines cs (groupId cnd))))
                          \<or> isDeltaOrMem (compareType (last (getGroupLines cs (groupId cnd)))))
                  then nat k * length (getGroupLines cs (groupId cnd)) < length (expandedLines (cs' ! i))
                  else expandedLines (cs' ! i)
                         = concat (replicate (nat k)
                             (map convertBitfieldConditionToText (getGroupLines cs (groupId cnd))))
                       \<and> length (expandedLines (cs' ! i)) = nat k * length (getGroupLines cs (groupId cnd))))"
proof -
  let ?gl = "getGroupLines cs (groupId cnd)"
  let ?tt = "convertBitfieldConditionToText :: condition \<Rightarrow> string"
  let ?plain = "concat (replicate (nat k) (map ?tt ?gl))"
  let ?pass = "deltaMemApplies e ?gl
                 \<and> list_ex (\<lambda>l. flag l = ''A:'' \<or> flag l = ''B:'' \<or> flag l = ''N:'' \<or> flag l = ''O:'') ?gl
                 \<and> (isDeltaOrMem (type (last ?gl)) \<or> isDeltaOrMem (compareType (last ?gl)))"
  have kk: "generatedGroupsOr1 e = k"
    using k by (simp add: generatedGroupsOr1_def)
  have each: "linesToAdd ga gc ?tt e x = Inr ((\<lambda>(gi, li, l). [?tt l]) x)"
    if "x \<in> set (expansionSteps k ?gl)" for x
  proof -
    obtain gi li l where x: "x = (gi, li, l)" by (cases x) auto
    with that have li: "li < length ?gl" using expansionSteps_member by blast
    with cfg have "li < length (lineConfigs e)" by simp
    moreover from plain li have "\<not> (customized (lineConfigs e ! li) \<and> customData (lineConfigs e ! li) \<noteq> None)"
      and "trim (arithmeticIncrement (lineConfigs e ! li)) = []" by auto
    ultimately show ?thesis
      by (auto simp add: linesToAdd_def x Let_def)
  qed
  have push: "pushAll (linesToAdd ga gc ?tt e) (expansionSteps k ?gl) = Inr ?plain"
    using pushAll_Inr[of "expansionSteps k ?gl" "linesToAdd ga gc ?tt e" "\<lambda>(gi, li, l). [?tt l]"] each
    by (simp add: concat_expansionSteps)
  have len: "length ?plain = nat k * length ?gl"
    by (simp add: length_concat_replicate)
  have pos: "0 < nat k * length ?gl"
    using k(2) find_in_group[OF fnd] by simp
  have stored: "expandedLines (cs' ! i) = afterDeltaMemCheck e ?gl ?plain"
    if "confirmExpansion ex cs eid ga gc ?tt = Inr (ex', cs')" "i < length cs" "groupId (cs ! i) = groupId cnd"
    for ex' cs' i
    using that tab fnd by (auto simp add: confirmExpansion_def kk push Let_def)
  have res: "\<exists>ex' cs'. confirmExpansion ex cs eid ga gc ?tt = Inr (ex', cs') \<and> length cs' = length cs"
    using tab fnd by (simp add: confirmExpansion_def kk push Let_def)
  then obtain ex' cs' where r: "confirmExpansion ex cs eid ga gc ?tt = Inr (ex', cs')"
    and l: "length cs' = length cs" by blast
  have "if ?pass then nat k * length ?gl < length (expandedLines (cs' ! i))
        else expandedLines (cs' ! i) = ?plain \<and> length (expandedLines (cs' ! i)) = nat k * length ?gl"
    if "i < length cs" "groupId (cs ! i) = groupId cnd" for i
  proof (cases ?pass)
    case True
    then have "2 * length ?plain \<le> length (afterDeltaMemCheck e ?gl ?plain)"
      using afterDeltaMemCheck_doubles[of e ?gl ?plain] by blast
    with pos len have "nat k * length ?gl < length (afterDeltaMemCheck e ?gl ?plain)"
      by linarith
    with True stored[OF r that] show ?thesis by simp
  next
    case False
    then have "afterDeltaMemCheck e ?gl ?plain = ?plain"
      by (rule afterDeltaMemCheck_unchanged)
    with False stored[OF r that] len show ?thesis by simp
  qed
  with r l show ?thesis by blast
qed

theorem confirmExpansion_plain_copies_witness:
  "ownProps (tableWith 2 (expansionOf 3 True 2)) 2 = Some (expansionOf 3 True 2)
   \<and> find (\<lambda>c. lineId c = 2) [conditionAt [] Mem ''0x10'' 1 2, conditionAt [] Mem ''0x20'' 2 2]
       = Some (conditionAt [] Mem ''0x20'' 2 2)
   \<and> length (getGroupLines [conditionAt [] Mem ''0x10'' 1 2, conditionAt [] Mem ''0x20'' 2 2]
               (groupId (conditionAt [] Mem ''0x20'' 2 2)))
       \<le> length (lineConfigs (expansionOf 3 True 2))
   \<and> list_all (\<lambda>i. \<not> (customized (lineConfigs (expansionOf 3 True 2) ! i)
                        \<and> customData (lineConfigs (expansionOf 3 True 2) ! i) \<noteq> None)
                   \<and> trim (arithmeticIncrement (lineConfigs (expansionOf 3 True 2) ! i)) = [])
        [0..<length (getGroupLines [conditionAt [] Mem ''0x10'' 1 2, conditionAt [] Mem ''0x20'' 2 2]
                       (groupId (conditionAt [] Mem ''0x20'' 2 2)))]
   \<and> generatedGroups (expansionOf 3 True 2) = Some 3 \<and> (1::int) \<le> 3
   \<and> deltaMemApplies (expansionOf 3 True 2)
        (getGroupLines [conditionAt [] Mem ''0x10'' 1 2, conditionAt [] Mem ''0x20'' 2 2]
           (groupId (conditionAt [] Mem ''0x20'' 2 2)))
   \<and> \<not> list_ex (\<lambda>l. flag l = ''A:'' \<or> flag l = ''B:'' \<or> flag l = ''N:'' \<or> flag l = ''O:'')
          (getGroupLines [conditionAt [] Mem ''0x10'' 1 2, conditionAt [] Mem ''0x20'' 2 2]
             (groupId (conditionAt [] Mem ''0x20'' 2 2)))
   \<and> (\<exists>ex' cs'. confirmExpansion (tableWith 2 (expansionOf 3 True 2))
                    [conditionAt [] Mem ''0x10'' 1 2, conditionAt [] Mem ''0x20'' 2 2] 2
                    noArithmeticLine noCustomLines convertBitfieldConditionToText = Inr (ex', cs')
         \<and> length cs' = length [conditionAt [] Mem ''0x10'' 1 2, conditionAt [] Mem ''0x20'' 2 2]
         \<and> list_all (\<lambda>i. expandedLines (cs' ! i)
                            = [''0xH10=0'', ''0xH20=0'', ''0xH10=0'', ''0xH20=0'', ''0xH10=0'', ''0xH20=0'']
                          \<and> length (expandedLines (cs' ! i)) = 3 * 2) [0, 1])"
proof -
  let ?cs = "[conditionAt [] Mem ''0x10'' 1 2, conditionAt [] Mem ''0x20'' 2 2]"
  let ?e = "expansionOf 3 True 2"
  let ?cnd = "conditionAt [] Mem ''0x20'' 2 2"
  let ?gl = "getGroupLines ?cs (groupId ?cnd)"
  have h1: "ownProps (tableWith 2 ?e) 2 = Some ?e"
    by (simp add: tableWith_def)
  have h2: "find (\<lambda>c. lineId c = 2) ?cs = Some ?cnd"
    by (simp add: conditionAt_def createDefaultCondition_def)
  have h3: "length ?gl \<le> length (lineConfigs ?e)"
    by (simp add: getGroupLines_def conditionAt_def createDefaultCondition_def expansionOf_def)
  have h4: "\<forall>i < length ?gl.
              \<not> (customized (lineConfigs ?e ! i) \<and> customData (lineConfigs ?e ! i) \<noteq> None)
              \<and> trim (arithmeticIncrement (lineConfigs ?e ! i)) = []"
    by (simp add: getGroupLines_def conditionAt_def createDefaultCondition_def expansionOf_def
        defaultLineConfig_def trim_def nth_Cons')
  have h5: "generatedGroups ?e = Some 3" and h6: "(1::int) \<le> 3"
    by (simp_all add: expansionOf_def)
  have h7: "deltaMemApplies ?e ?gl"
    by code_simp
  have h8: "\<not> list_ex (\<lambda>l. flag l = ''A:'' \<or> flag l = ''B:'' \<or> flag l = ''N:'' \<or> flag l = ''O:'') ?gl"
    by code_simp
  have gl: "?gl = ?cs"
    by (simp add: getGroupLines_def conditionAt_def createDefaultCondition_def)
  have copies: "concat (replicate (nat 3) (map convertBitfieldConditionToText ?gl))
      = [''0xH10=0'', ''0xH20=0'', ''0xH10=0'', ''0xH20=0'', ''0xH10=0'', ''0xH20=0'']"
    by code_simp
  have g0: "groupId (?cs ! 0) = groupId ?cnd" and g1: "groupId (?cs ! 1) = groupId ?cnd"
    by (simp_all add: conditionAt_def createDefaultCondition_def)
  from h4 have h4': "list_all (\<lambda>i. \<not> (customized (lineConfigs ?e ! i) \<and> customData (lineConfigs ?e ! i) \<noteq> None)
                   \<and> trim (arithmeticIncrement (lineConfigs ?e ! i)) = [])
        [0..<length ?gl]"
    by (simp add: list_all_iff)
  from confirmExpansion_plain_copies [OF h1 h2 h3 h4 h5 h6, of noArithmeticLine noCustomLines]
  obtain ex' cs' where r: "confirmExpansion (tableWith 2 ?e) ?cs 2
                    noArithmeticLine noCustomLines convertBitfieldConditionToText = Inr (ex', cs')"
    and l: "length cs' = length ?cs"
    and a: "\<forall>i < length ?cs. groupId (?cs ! i) = groupId ?cnd \<longrightarrow>
                 (if deltaMemApplies ?e ?gl
                     \<and> list_ex (\<lambda>l. flag l = ''A:'' \<or> flag l = ''B:'' \<or> flag l = ''N:'' \<or> flag l = ''O:'') ?gl
                     \<and> (isDeltaOrMem (type (last ?gl)) \<or> isDeltaOrMem (compareType (last ?gl)))
                  then nat 3 * length ?gl < length (expandedLines (cs' ! i))
                  else expandedLines (cs' ! i)
                         = concat (replicate (nat 3) (map convertBitfieldConditionToText ?gl))
                       \<and> length (expandedLines (cs' ! i)) = nat 3 * length ?gl)"
    by blast
  have len: "nat 3 * length ?gl = 3 * 2"
    by (simp only: gl) simp
  have b: "expandedLines (cs' ! i)
             = [''0xH10=0'', ''0xH20=0'', ''0xH10=0'', ''0xH20=0'', ''0xH10=0'', ''0xH20=0'']
           \<and> length (expandedLines (cs' ! i)) = 3 * 2"
    if "i < length ?cs" "groupId (?cs ! i) = groupId ?cnd" for i
  proof -
    have np: "\<not> (deltaMemApplies ?e ?gl
                     \<and> list_ex (\<lambda>l. flag l = ''A:'' \<or> flag l = ''B:'' \<or> flag l = ''N:'' \<or> flag l = ''O:'') ?gl
                     \<and> (isDeltaOrMem (type (last ?gl)) \<or> isDeltaOrMem (compareType (last ?gl))))"
      using h8 by blast
    from a that have "if deltaMemApplies ?e ?gl
                     \<and> list_ex (\<lambda>l. flag l = ''A:'' \<or> flag l = ''B:'' \<or> flag l = ''N:'' \<or> flag l = ''O:'') ?gl
                     \<and> (isDeltaOrMem (type (last ?gl)) \<or> isDeltaOrMem (compareType (last ?gl)))
                  then nat 3 * length ?gl < length (expandedLines (cs' ! i))
                  else expandedLines (cs' ! i)
                         = concat (replicate (nat 3) (map convertBitfieldConditionToText ?gl))
                       \<and> length (expandedLines (cs' ! i)) = nat 3 * length ?gl"
      by blast
    then have "expandedLines (cs' ! i)
                         = concat (replicate (nat 3) (map convertBitfieldConditionToText ?gl))
                       \<and> length (expandedLines (cs' ! i)) = nat 3 * length ?gl"
      unfolding if_not_P[OF np] .
    then show ?thesis
      unfolding copies len .
  qed
  have i0: "0 < length ?cs" and i1: "1 < length ?cs" by simp_all
  note b0 = b[OF i0 g0] and b1 = b[OF i1 g1]
  have "list_all (\<lambda>i. expandedLines (cs' ! i)
                            = [''0xH10=0'', ''0xH20=0'', ''0xH10=0'', ''0xH20=0'', ''0xH10=0'', ''0xH20=0'']
                          \<and> length (expandedLines (cs' ! i)) = 3 * 2) [0, 1]"
    using b0 b1 by simp
  with r l h1 h2 h3 h4' h5 h6 h7 h8 show ?thesis by blast
qed

subsection \<open>Renumbering\<close>

lemma assignLineIds_lineId: "map lineId (assignLineIds cs) = [1..<Suc (length cs)]"
proof -
  have "map lineId (assignLineIds cs) = map (\<lambda>p. Suc (fst p)) (zip [0..<length cs] cs)"
    by (simp add: assignLineIds_def case_prod_unfold)
  also have "\<dots> = map Suc [0..<length cs]"
    by (rule map_fst_zip_upt)
  also have "\<dots> = [1..<Suc (length cs)]"
    by (simp add: map_Suc_upt del: upt.simps)
  finally show ?thesis .
qed

lemma assignLineIds_content: "map contentOf (assignLineIds cs) = map contentOf cs"
proof -
  have "map contentOf (assignLineIds cs) = map (\<lambda>p. contentOf (snd p)) (zip [0..<length cs] cs)"
    by (simp add: assignLineIds_def case_prod_unfold contentOf_def parsed_condition.truncate_def)
  also have "\<dots> = map contentOf cs"
    by (rule map_snd_zip_upt)
  finally show ?thesis .
qed

lemma fixGroupStep_lineId: "map lineId (fst (fixGroupStep st i)) = map lineId (fst st)"
  by (cases st) (auto simp: fixGroupStep_def Let_def comp_def intro!: map_cong)

lemma fixGroupStep_content: "map contentOf (fst (fixGroupStep st i)) = map contentOf (fst st)"
  by (cases st)
     (auto simp: fixGroupStep_def Let_def comp_def contentOf_def parsed_condition.truncate_def
           intro!: map_cong)

lemma foldl_fixGroupStep_lineId: "map lineId (fst (foldl fixGroupStep st is)) = map lineId (fst st)"
  by (induction "is" arbitrary: st) (simp_all add: fixGroupStep_lineId)

lemma foldl_fixGroupStep_content: "map contentOf (fst (foldl fixGroupStep st is)) = map contentOf (fst st)"
  by (induction "is" arbitrary: st) (simp_all add: fixGroupStep_content)

text \<open>
  The part of the renumbering that holds on every list: the line identifiers are
  \<open>1, \<dots>, N\<close> in the order of the list, and nothing but the two identifiers changes.
\<close>

lemma recalculate_lineIds: "map lineId (recalculateLineAndGroupIds cs) = [1..<Suc (length cs)]"
  by (simp add: recalculateLineAndGroupIds_def foldl_fixGroupStep_lineId assignLineIds_lineId
           del: upt.simps)

lemma recalculate_content: "map contentOf (recalculateLineAndGroupIds cs) = map contentOf cs"
  by (simp add: recalculateLineAndGroupIds_def foldl_fixGroupStep_content assignLineIds_content
           del: upt.simps)

text \<open>
  Claim C8. Evaluation of two operations on lists that satisfy the claimed invariant
  (identifiers \<open>1..N\<close>, a singleton has its own line identifier as group, a group has the
  greatest line identifier of its members). Copying the group of lines 1 and 2 in front of
  the singleton 3 and the group of lines 4 and 5: the line identifiers become \<open>1..7\<close>, but
  the former singleton (now line 5) gets group 6 and is joined with the former line 4, while
  the former leader, line 5 (now line 7), is left alone. Adding a condition after line 1 in
  front of the group of lines 2 and 3: the two members become singletons.
\<close>

theorem renumbering_loses_groups:
  "idsOf (copyCondition
            [conditionAt [] Mem ''0x1'' 1 2, conditionAt [] Mem ''0x2'' 2 2,
             conditionAt [] Mem ''0x3'' 3 3,
             conditionAt [] Mem ''0x4'' 4 5, conditionAt [] Mem ''0x5'' 5 5] 1)
     = [(''0x1'', 1, 2), (''0x2'', 2, 2), (''0x1'', 3, 3), (''0x2'', 4, 4),
        (''0x3'', 5, 6), (''0x4'', 6, 6), (''0x5'', 7, 7)]
   \<and> idsOf (addConditionAtIndex
            [conditionAt [] Mem ''0x1'' 1 1,
             conditionAt [] Mem ''0x2'' 2 3, conditionAt [] Mem ''0x3'' 3 3] 0)
     = [(''0x1'', 1, 1), (''0x0'', 2, 2), (''0x2'', 3, 3), (''0x3'', 4, 4)]"
  by code_simp

subsection \<open>Removing a condition\<close>

text \<open>
  The part of the removal that concerns the list: with distinct line identifiers, the
  conditions of the group of the addressed line are removed and the others are kept, in
  their order, unchanged apart from the two identifiers; the Map entries under the line
  identifiers of the group are deleted and the properties of the table are not touched.
\<close>

lemma removeBitfieldCondition_conditions:
  assumes fnd: "find (\<lambda>c. lineId c = lid) cs = Some cnd"
    and dist: "distinct (map lineId cs)"
  shows "map contentOf (fst (removeBitfieldCondition cs ex col lid))
           = map contentOf (filter (\<lambda>c. groupId c \<noteq> groupId cnd) cs)"
proof -
  have inj: "inj_on lineId (set cs)"
    using dist by (simp add: distinct_map)
  have "filter (\<lambda>c. lineId c \<notin> set (map lineId (getGroupLines cs (groupId cnd)))) cs
          = filter (\<lambda>c. groupId c \<noteq> groupId cnd) cs"
  proof (rule filter_cong[OF refl])
    fix c assume c: "c \<in> set cs"
    show "(lineId c \<notin> set (map lineId (getGroupLines cs (groupId cnd)))) = (groupId c \<noteq> groupId cnd)"
      using c inj by (auto simp: getGroupLines_def inj_on_def)
  qed
  then show ?thesis
    using fnd by (simp add: removeBitfieldCondition_def Let_def recalculate_content)
qed

lemma removeBitfieldCondition_table:
  assumes fnd: "find (\<lambda>c. lineId c = lid) cs = Some cnd"
  shows "ownProps (fst (snd (removeBitfieldCondition cs ex col lid))) = ownProps ex"
  using fnd by (simp add: removeBitfieldCondition_def Let_def)

text \<open>
  Claim C10. Evaluation of \<open>removeBitfieldCondition\<close> on the two singletons 1 and 2, with the
  expansion of line 1 in the table where \<open>expandCondition\<close> puts it (a property of the
  object): line 1 is removed and the other condition is kept and renumbered to line 1, but
  the expansion of the removed line is still in the table under 1.
\<close>

theorem removeBitfieldCondition_keeps_expansion:
  "idsOf (fst (removeBitfieldCondition
        [conditionAt [] Mem ''0x1'' 1 1, conditionAt [] Mem ''0x2'' 2 2]
        (tableWith 1 (expansionOf 1 True 1)) Map.empty 1)) = [(''0x2'', 1, 1)]
   \<and> ownProps (fst (snd (removeBitfieldCondition
        [conditionAt [] Mem ''0x1'' 1 1, conditionAt [] Mem ''0x2'' 2 2]
        (tableWith 1 (expansionOf 1 True 1)) Map.empty 1))) 1 = Some (expansionOf 1 True 1)"
  by code_simp

subsection \<open>Bit compression\<close>

lemma groupStep_acc: "groupStep (gs, cur) l = (gs @ fst (groupStep ([], cur) l), snd (groupStep ([], cur) l))"
  by (auto simp: groupStep_def closeGroup_def split: option.splits lineGroup.splits prod.splits)

lemma foldl_groupStep:
  "(case foldl groupStep (gs, cur) ls of (groups, currentGroup) \<Rightarrow> closeGroup groups currentGroup)
     = gs @ groupsFrom cur ls"
proof (induction ls arbitrary: gs cur)
  case Nil
  show ?case by (simp add: closeGroup_def split: option.splits)
next
  case (Cons l ls)
  show ?case
    by (subst foldl_Cons, subst groupStep_acc) (simp add: Cons.IH)
qed

lemma lineGroups_groupsFrom: "lineGroups ls = groupsFrom None ls"
  using foldl_groupStep[of "[]" None ls] by (simp add: lineGroups_def)

lemma bitKey_None_iff: "bitKey l = None \<longleftrightarrow> bitInfo l = None"
  by (auto simp: bitKey_def split: option.splits)

lemma groupsFrom_run:
  "groupsFrom (Some (BitRun a tp bs lns ps)) ls
     = BitRun a tp (bs @ map bitOf (takeWhile (\<lambda>x. bitKey x = Some (a, tp)) ls))
                   (lns @ takeWhile (\<lambda>x. bitKey x = Some (a, tp)) ls)
                   (ps @ map flagOf (takeWhile (\<lambda>x. bitKey x = Some (a, tp)) ls))
       # groupsFrom None (dropWhile (\<lambda>x. bitKey x = Some (a, tp)) ls)"
proof (induction ls arbitrary: bs lns ps)
  case Nil
  show ?case by (simp add: closeGroup_def)
next
  case (Cons l ls)
  show ?case
  proof (cases "bitInfo l")
    case None
    then have "bitKey l = None" by (simp add: bitKey_def)
    moreover from None have "bitMatch l = None \<or> (\<exists>p t b a'. bitMatch l = Some (p, t, b, a') \<and> bitIndexOf b = None)"
      by (auto simp: bitInfo_def split: option.splits)
    ultimately show ?thesis
      by (auto simp: groupStep_def closeGroup_def)
  next
    case (Some info)
    obtain a' tp' i p where info: "info = (a', tp', i, p)" by (cases info) auto
    from Some info obtain b where m: "bitMatch l = Some (p, tp', b, a')" and bi: "bitIndexOf b = Some i"
      by (auto simp: bitInfo_def split: option.splits)
    have key: "bitKey l = Some (a', tp')" and bo: "bitOf l = i" and fo: "flagOf l = p"
      using Some info by (simp_all add: bitKey_def bitOf_def flagOf_def)
    show ?thesis
    proof (cases "a' = a \<and> tp' = tp")
      case True
      then show ?thesis
        using m bi key bo fo Cons.IH[of "bs @ [i]" "lns @ [l]" "ps @ [p]"]
        by (simp add: groupStep_def)
    next
      case False
      then show ?thesis
        using m bi key
        by (auto simp add: groupStep_def closeGroup_def)
    qed
  qed
qed

lemma groupsFrom_None_Cons:
  "groupsFrom None (l # ls) =
     (case bitInfo l of
        None \<Rightarrow> Standalone l # groupsFrom None ls
      | Some (a, tp, i, p) \<Rightarrow> groupsFrom (Some (BitRun a tp [i] [l] [p])) ls)"
  by (auto simp: groupStep_def closeGroup_def bitInfo_def split: option.splits)

lemma groupsFrom_maximalRuns: "groupsFrom None ls = map groupOfRun (maximalRuns ls)"
proof (induction ls rule: maximalRuns.induct)
  case 1
  show ?case by (simp add: closeGroup_def)
next
  case (2 l ls)
  show ?case
  proof (cases "bitInfo l")
    case None
    then have k: "bitKey l = None" by (simp add: bitKey_def)
    with None 2(1) show ?thesis
      by (simp add: groupsFrom_None_Cons groupOfRun_def del: groupsFrom.simps)
  next
    case (Some info)
    obtain a tp i p where info: "info = (a, tp, i, p)" by (cases info) auto
    have key: "bitKey l = Some (a, tp)" and bo: "bitOf l = i" and fo: "flagOf l = p"
      using Some info by (simp_all add: bitKey_def bitOf_def flagOf_def)
    show ?thesis
      using Some info key bo fo 2(2)[OF key]
      by (simp add: groupsFrom_None_Cons groupsFrom_run groupOfRun_def del: groupsFrom.simps)
  qed
qed

lemma maximalRuns_Cons_None: "bitKey l = None \<Longrightarrow> maximalRuns (l # ls) = [l] # maximalRuns ls"
  by simp

lemma maximalRuns_Cons_Some:
  "bitKey l = Some k \<Longrightarrow> maximalRuns (l # ls) =
     (l # takeWhile (\<lambda>x. bitKey x = Some k) ls) # maximalRuns (dropWhile (\<lambda>x. bitKey x = Some k) ls)"
  by simp

lemma concat_maximalRuns: "concat (maximalRuns ls) = ls"
  by (induction ls rule: maximalRuns.induct) (auto split: option.splits)

lemma maximalRuns_member:
  "r \<in> set (maximalRuns ls) \<Longrightarrow>
     r \<noteq> [] \<and> (bitKey (hd r) = None \<longrightarrow> length r = 1) \<and> (\<forall>x \<in> set r. bitKey x = bitKey (hd r))"
proof (induction ls rule: maximalRuns.induct)
  case 1
  then show ?case by simp
next
  case (2 l ls)
  show ?case
  proof (cases "bitKey l")
    case None
    with 2 show ?thesis by auto
  next
    case (Some k)
    with 2(3) have "r = l # takeWhile (\<lambda>x. bitKey x = Some k) ls
                   \<or> r \<in> set (maximalRuns (dropWhile (\<lambda>x. bitKey x = Some k) ls))"
      by simp
    then show ?thesis
    proof
      assume "r = l # takeWhile (\<lambda>x. bitKey x = Some k) ls"
      then show ?thesis using Some by (auto dest: set_takeWhileD)
    next
      assume "r \<in> set (maximalRuns (dropWhile (\<lambda>x. bitKey x = Some k) ls))"
      then show ?thesis using 2(2)[OF Some] by blast
    qed
  qed
qed

lemma dropWhile_all: "\<forall>x \<in> set xs. P x \<Longrightarrow> dropWhile P xs = []"
  by simp

lemma maximalRuns_same_key:
  "xs \<noteq> [] \<Longrightarrow> \<forall>x \<in> set xs. bitKey x = Some k \<Longrightarrow> maximalRuns xs = [xs]"
  by (cases xs) (auto simp: dropWhile_all)

lemma maximalRuns_append:
  "xs = [] \<or> ys = [] \<or> bitKey (last xs) = None \<or> bitKey (hd ys) \<noteq> bitKey (last xs)
   \<Longrightarrow> maximalRuns (xs @ ys) = maximalRuns xs @ maximalRuns ys"
proof (induction xs rule: maximalRuns.induct)
  case 1
  show ?case by simp
next
  case (2 l ls)
  show ?case
  proof (cases "bitKey l")
    case None
    have "ls = [] \<or> ys = [] \<or> bitKey (last ls) = None \<or> bitKey (hd ys) \<noteq> bitKey (last ls)"
      using 2(3) by (cases "ls = []") auto
    with 2(1)[OF None] None show ?thesis by simp
  next
    case (Some k)
    let ?P = "\<lambda>x. bitKey x = Some k"
    show ?thesis
    proof (cases "\<forall>x \<in> set ls. ?P x")
      case True
      then have lastk: "bitKey (last (l # ls)) = Some k"
        using Some by (cases "ls = []") auto
      have tw: "takeWhile ?P ls = ls" and dw: "dropWhile ?P ls = []"
        using True by simp_all
      from 2(3) lastk have ys: "ys = [] \<or> \<not> ?P (hd ys)" by auto
      then have tw2: "takeWhile ?P (ls @ ys) = ls" and dw2: "dropWhile ?P (ls @ ys) = ys"
        using True by (cases ys; simp)+
      have "maximalRuns ((l # ls) @ ys) = (l # ls) # maximalRuns ys"
        by (simp add: maximalRuns_Cons_Some[OF Some] tw2 dw2 del: maximalRuns.simps(2))
      moreover have "maximalRuns (l # ls) = [l # ls]"
        by (simp add: maximalRuns_Cons_Some[OF Some] tw dw del: maximalRuns.simps(2))
      ultimately show ?thesis by simp
    next
      case False
      then obtain x where x: "x \<in> set ls" "\<not> ?P x" by blast
      then have tw: "takeWhile ?P (ls @ ys) = takeWhile ?P ls"
        and dw: "dropWhile ?P (ls @ ys) = dropWhile ?P ls @ ys"
        by (simp_all add: takeWhile_append1 dropWhile_append1)
      from x have ne: "dropWhile ?P ls \<noteq> []"
        by (auto simp: dropWhile_eq_Nil_conv)
      then have "last (dropWhile ?P ls) = last ls"
        by (metis last_appendR takeWhile_dropWhile_id)
      moreover have "last (l # ls) = last ls" using x by auto
      ultimately have "dropWhile ?P ls = [] \<or> ys = [] \<or> bitKey (last (dropWhile ?P ls)) = None
                       \<or> bitKey (hd ys) \<noteq> bitKey (last (dropWhile ?P ls))"
        using 2(3) by auto
      from 2(2)[OF Some this] show ?thesis
        by (simp add: maximalRuns_Cons_Some[OF Some] tw dw del: maximalRuns.simps(2))
    qed
  qed
qed

lemma matchBitCore_components:
  "matchBitCore s = Some (b, a) \<Longrightarrow> b \<in> set bitLetters \<and> a \<noteq> [] \<and> (\<forall>c \<in> set a. isUpperHexDigit c)"
  by (auto simp: matchBitCore_def split: if_splits list.splits dest: set_takeWhileD)

lemma matchBitTyped_components:
  "matchBitTyped s = Some (tp, b, a) \<Longrightarrow>
     tp \<in> set [[], ''d'', ''p'', ''b'', ''~''] \<and> b \<in> set bitLetters \<and> a \<noteq> [] \<and> (\<forall>c \<in> set a. isUpperHexDigit c)"
  by (auto simp: matchBitTyped_def split: if_splits list.splits option.splits
           dest!: matchBitCore_components)

lemma matchBitAt_components:
  "matchBitAt s = Some (p, tp, b, a) \<Longrightarrow>
     p \<in> set [[], ''A:'', ''B:''] \<and> tp \<in> set [[], ''d'', ''p'', ''b'', ''~''] \<and> b \<in> set bitLetters
     \<and> a \<noteq> [] \<and> (\<forall>c \<in> set a. isUpperHexDigit c)"
  by (auto simp: matchBitAt_def startsWith_def numeral_2_eq_2 split: if_splits option.splits
           dest!: matchBitTyped_components)

lemma bitMatch_components:
  "bitMatch l = Some (p, tp, b, a) \<Longrightarrow>
     p \<in> set [[], ''A:'', ''B:''] \<and> tp \<in> set [[], ''d'', ''p'', ''b'', ''~''] \<and> b \<in> set bitLetters
     \<and> a \<noteq> [] \<and> (\<forall>c \<in> set a. isUpperHexDigit c)"
proof (induction l rule: bitMatch.induct)
  case 1
  then show ?case using matchBitAt_components by simp
next
  case (2 c cs)
  show ?case
  proof (cases "matchBitAt (c # cs)")
    case None
    with 2 show ?thesis by simp
  next
    case (Some m)
    with 2(2) have "matchBitAt (c # cs) = Some (p, tp, b, a)" by simp
    then show ?thesis by (rule matchBitAt_components)
  qed
qed

lemma takeWhile_all: "\<forall>c \<in> set a. P c \<Longrightarrow> takeWhile P a = a"
  by simp

lemma matchBitCore_canonical:
  "b \<in> set bitLetters \<Longrightarrow> a \<noteq> [] \<Longrightarrow> \<forall>c \<in> set a. isUpperHexDigit c
   \<Longrightarrow> matchBitCore (''0x'' @ [b] @ a) = Some (b, a)"
  by (simp add: matchBitCore_def startsWith_def takeWhile_all)

lemma matchBitTyped_canonical:
  assumes "tp \<in> set [[], ''d'', ''p'', ''b'', ''~'']" "b \<in> set bitLetters" "a \<noteq> []" "\<forall>c \<in> set a. isUpperHexDigit c"
  shows "matchBitTyped (tp @ ''0x'' @ [b] @ a) = Some (tp, b, a)"
  using assms(1) matchBitCore_canonical[OF assms(2-4)]
  by (auto simp: matchBitTyped_def)

lemma bitMatch_canonical:
  assumes "f \<in> set [''A:'', ''B:'']" "tp \<in> set [[], ''d'', ''p'', ''b'', ''~'']" "b \<in> set bitLetters"
    and "a \<noteq> []" "\<forall>c \<in> set a. isUpperHexDigit c"
  shows "bitMatch (f @ tp @ ''0x'' @ [b] @ a) = Some (f, tp, b, a)"
proof -
  have "matchBitAt (f @ tp @ ''0x'' @ [b] @ a) = Some (f, tp, b, a)"
    using assms(1) matchBitTyped_canonical[OF assms(2-5)]
    by (auto simp: matchBitAt_def startsWith_def)
  moreover obtain c cs where "f @ tp @ ''0x'' @ [b] @ a = c # cs"
    using assms(1) by auto
  ultimately show ?thesis by simp
qed

lemma matchBitCore_no_x: "CHR ''x'' \<notin> set s \<Longrightarrow> matchBitCore s = None"
  by (cases s; cases "tl s") (auto simp: matchBitCore_def startsWith_def)

lemma matchBitTyped_no_x: "CHR ''x'' \<notin> set s \<Longrightarrow> matchBitTyped s = None"
  by (cases s) (auto simp: matchBitTyped_def matchBitCore_no_x)

lemma matchBitAt_no_x: "CHR ''x'' \<notin> set s \<Longrightarrow> matchBitAt s = None"
proof -
  assume a: "CHR ''x'' \<notin> set s"
  then have "CHR ''x'' \<notin> set (drop 2 s)" by (auto dest: in_set_dropD)
  then have "matchBitTyped (drop 2 s) = None" by (rule matchBitTyped_no_x)
  moreover have "matchBitTyped s = None" using a by (rule matchBitTyped_no_x)
  ultimately show ?thesis by (simp add: matchBitAt_def)
qed

lemma bitMatch_no_x: "CHR ''x'' \<notin> set s \<Longrightarrow> bitMatch s = None"
  by (induction s) (auto simp: matchBitAt_no_x)

lemma not_hex_x: "\<not> isUpperHexDigit CHR ''x''"
  by (simp add: isUpperHexDigit_def)

lemma hex_no_x: "\<forall>c \<in> set a. isUpperHexDigit c \<Longrightarrow> CHR ''x'' \<notin> set a"
  using not_hex_x by blast

lemma bitMatch_bitCount_line:
  assumes "f \<in> set [''A:'', ''B:'']" "tp \<in> set [[], ''d'', ''p'', ''b'', ''~'']" "\<forall>c \<in> set a. isUpperHexDigit c"
  shows "bitMatch (f @ tp @ ''0xK'' @ a) = None"
proof -
  have nox: "CHR ''x'' \<notin> set a" using assms(3) by (rule hex_no_x)
  have tail: "bitMatch (CHR ''K'' # a) = None" "matchBitAt (CHR ''K'' # a) = None"
    using nox by (simp_all add: bitMatch_no_x matchBitAt_no_x)
  have core: "matchBitCore (CHR ''0'' # CHR ''x'' # CHR ''K'' # a) = None"
    by (simp add: matchBitCore_def startsWith_def bitLetters_def)
  have corex: "matchBitCore (CHR ''x'' # CHR ''K'' # a) = None"
    by (simp add: matchBitCore_def startsWith_def)
  have coreK: "matchBitCore (CHR ''K'' # a) = None"
    by (simp add: matchBitCore_def startsWith_def)
  show ?thesis
    using assms(1,2) tail
    by (auto simp: matchBitAt_def matchBitTyped_def core corex coreK startsWith_def matchBitCore_def bitLetters_def)
qed

lemma bitIndexOf_nth: "i < 8 \<Longrightarrow> bitIndexOf (bitLetters ! i) = Some i"
proof -
  assume "i < 8"
  then have "i = 0 \<or> i = 1 \<or> i = 2 \<or> i = 3 \<or> i = 4 \<or> i = 5 \<or> i = 6 \<or> i = 7" by arith
  then show ?thesis
    by (elim disjE) (simp_all add: bitIndexOf_def bitLetters_def)
qed

lemma bitLetters_nth: "i < 8 \<Longrightarrow> bitLetters ! i \<in> set bitLetters"
  by (rule nth_mem) (simp add: bitLetters_def)

lemma groupOfRun_emit:
  assumes "r \<in> set (maximalRuns ls)"
  shows "emitGroup (groupOfRun r) = compressedRun r \<and> isCompressible (groupOfRun r) = runCompressible r"
proof -
  from maximalRuns_member[OF assms]
  have ne: "r \<noteq> []" and single: "bitKey (hd r) = None \<longrightarrow> length r = 1" by blast+
  show ?thesis
  proof (cases "bitKey (hd r)")
    case None
    with single have "length r = 1" by simp
    then obtain l where "r = [l]" by (cases r) auto
    with None show ?thesis
      by (simp add: groupOfRun_def compressedRun_def runCompressible_def)
  next
    case (Some k)
    obtain a tp where k: "k = (a, tp)" by (cases k) auto
    have lm: "last (map flagOf r) = flagOf (last r)"
      using ne by (simp add: last_map)
    have g: "groupOfRun r = BitRun a tp (map bitOf r) r (map flagOf r)"
      using Some k by (simp add: groupOfRun_def)
    have mb: "missingBitsOf (map bitOf r) = runMissingBits r"
      by (simp add: missingBitsOf_def runMissingBits_def)
    have AB: "''A:'' \<noteq> ''B:''" by simp
    consider (A) "flagOf (last r) = ''A:''" | (B) "flagOf (last r) = ''B:''"
      | (other) "flagOf (last r) \<noteq> ''A:''" "flagOf (last r) \<noteq> ''B:''" by blast
    then show ?thesis
    proof cases
      case A
      then show ?thesis
        using Some k ne
        by (simp add: g lm mb compressedRun_def runCompressible_def runRewritten_def
              bitCountLine_def missingLine_def)
    next
      case B
      then show ?thesis
        using Some k ne
        by (simp add: g lm mb compressedRun_def runCompressible_def runRewritten_def
              bitCountLine_def missingLine_def)
    next
      case other
      then show ?thesis
        using Some k ne
        by (simp add: g lm compressedRun_def runCompressible_def)
    qed
  qed
qed

lemma compressBits_runs: "compressBits ls = concat (map compressedRun (maximalRuns ls))"
proof -
  have groups: "lineGroups ls = map groupOfRun (maximalRuns ls)"
    by (simp add: lineGroups_groupsFrom groupsFrom_maximalRuns)
  have emit: "map emitGroup (map groupOfRun (maximalRuns ls)) = map compressedRun (maximalRuns ls)"
    unfolding map_map comp_def by (rule map_cong) (simp_all add: groupOfRun_emit)
  have out: "concat (map emitGroup (lineGroups ls)) = concat (map compressedRun (maximalRuns ls))"
    unfolding groups emit ..
  show ?thesis
  proof (cases "list_ex isCompressible (lineGroups ls)")
    case True
    then show ?thesis
      by (simp add: compressBits_def Let_def out)
  next
    case False
    then have "\<forall>r \<in> set (maximalRuns ls). \<not> runCompressible r"
      using groupOfRun_emit by (auto simp: groups list_ex_iff)
    then have "map compressedRun (maximalRuns ls) = maximalRuns ls"
      by (simp add: compressedRun_def map_idI)
    then show ?thesis
      using False by (simp add: compressBits_def Let_def concat_maximalRuns)
  qed
qed

lemma bitInfo_canonical:
  assumes "f \<in> set [''A:'', ''B:'']" "tp \<in> set [[], ''d'', ''p'', ''b'', ''~'']" "i < 8"
    and "a \<noteq> []" "\<forall>c \<in> set a. isUpperHexDigit c"
  shows "bitInfo (f @ tp @ ''0x'' @ [bitLetters ! i] @ a) = Some (a, tp, i, f)"
  using bitMatch_canonical[OF assms(1,2) bitLetters_nth[OF assms(3)] assms(4,5)] bitIndexOf_nth[OF assms(3)]
  by (simp add: bitInfo_def)

lemma bitInfo_components:
  assumes "bitInfo l = Some (a, tp, i, p)"
  shows "tp \<in> set [[], ''d'', ''p'', ''b'', ''~''] \<and> a \<noteq> [] \<and> (\<forall>c \<in> set a. isUpperHexDigit c)"
proof -
  from assms obtain b where "bitMatch l = Some (p, tp, b, a)"
    by (auto simp: bitInfo_def split: option.splits)
  from bitMatch_components[OF this] show ?thesis by simp
qed

lemma bitKey_bitCount_line:
  assumes "f \<in> set [''A:'', ''B:'']" "tp \<in> set [[], ''d'', ''p'', ''b'', ''~'']" "\<forall>c \<in> set a. isUpperHexDigit c"
  shows "bitKey (f @ tp @ ''0xK'' @ a) = None"
  using bitMatch_bitCount_line[OF assms] by (simp add: bitKey_def bitInfo_def)

lemma eight_bits_example:
  assumes tp: "tp \<in> set [[], ''d'', ''p'', ''b'', ''~'']"
    and a: "a \<noteq> []" "\<forall>c \<in> set a. isUpperHexDigit c"
    and bs: "length bs = 8" "set bs = {0..<8}"
  shows "compressBits (map (\<lambda>b. ''A:'' @ tp @ ''0x'' @ [bitLetters ! b] @ a) bs) = [''A:'' @ tp @ ''0xK'' @ a]"
proof -
  let ?line = "\<lambda>b. ''A:'' @ tp @ ''0x'' @ [bitLetters ! b] @ a"
  let ?r = "map ?line bs"
  have info: "bitInfo (?line b) = Some (a, tp, b, ''A:'')" if "b \<in> set bs" for b
    using that bs(2) bitInfo_canonical[of "''A:''" tp b a] tp a by simp
  have ne: "?r \<noteq> []" using bs(1) by auto
  have keys: "\<forall>x \<in> set ?r. bitKey x = Some (a, tp)"
    using info by (auto simp: bitKey_def)
  have runs: "maximalRuns ?r = [?r]"
    using maximalRuns_same_key[OF ne keys] .
  have hdk: "bitKey (hd ?r) = Some (a, tp)"
  proof -
    have "hd ?r \<in> set ?r" using ne by (rule hd_in_set)
    with keys show ?thesis by blast
  qed
  have lastf: "flagOf (last ?r) = ''A:''"
  proof -
    have "last ?r \<in> set ?r" using ne by (rule last_in_set)
    then obtain b where "b \<in> set bs" "last ?r = ?line b" by auto
    then show ?thesis using info by (simp add: flagOf_def)
  qed
  have bits: "map bitOf ?r = bs"
    using info by (simp add: bitOf_def map_idI)
  have "runMissingBits ?r = []"
    unfolding runMissingBits_def bits using bs(2) by (simp add: filter_empty_conv del: upt.simps)
  moreover have "runCompressible ?r"
    using ne hdk lastf bs(1) by (simp add: runCompressible_def)
  ultimately have cr: "compressedRun ?r = [''A:'' @ tp @ ''0xK'' @ a]"
    using hdk lastf by (simp add: compressedRun_def runRewritten_def)
  have "compressBits ?r = concat (map compressedRun [?r])"
    by (simp only: compressBits_runs runs)
  also have "\<dots> = compressedRun ?r"
    by simp
  finally show ?thesis
    by (simp only: cr)
qed

lemma compressBits_noop:
  assumes "\<forall>r \<in> set (maximalRuns ys). \<not> runCompressible r"
  shows "compressBits ys = ys"
proof -
  from assms have "map compressedRun (maximalRuns ys) = maximalRuns ys"
    by (simp add: compressedRun_def map_idI)
  then show ?thesis
    by (simp add: compressBits_runs concat_maximalRuns)
qed

lemma not_compressible_short: "length q < 5 \<Longrightarrow> \<not> runCompressible q"
  by (simp add: runCompressible_def)

lemma not_compressible_plain: "bitKey (hd q) = None \<Longrightarrow> \<not> runCompressible q"
  by (simp add: runCompressible_def)

lemma compressedRun_props:
  assumes r: "r \<in> set (maximalRuns ls)"
    and key: "bitKey (hd r) = Some k"
    and few: "runCompressible r \<longrightarrow> length (runMissingBits r) \<le> 4"
  shows "compressedRun r \<noteq> []
         \<and> (\<forall>x \<in> set (compressedRun r). bitKey x = None \<or> bitKey x = Some k)
         \<and> (\<forall>q \<in> set (maximalRuns (compressedRun r)). \<not> runCompressible q)"
proof (cases "runCompressible r")
  case False
  from maximalRuns_member[OF r] key
  have ne: "r \<noteq> []" and same: "\<forall>x \<in> set r. bitKey x = Some k" by simp_all
  have "maximalRuns r = [r]" using ne same by (rule maximalRuns_same_key)
  then show ?thesis
    using False ne same by (simp add: compressedRun_def)
next
  case True
  obtain a tp where k: "k = (a, tp)" by (cases k) auto
  from maximalRuns_member[OF r] have ne: "r \<noteq> []" by blast
  from key k obtain i p where "bitInfo (hd r) = Some (a, tp, i, p)"
    by (auto simp: bitKey_def split: option.splits)
  from bitInfo_components[OF this]
  have tp: "tp \<in> set [[], ''d'', ''p'', ''b'', ''~'']" and a: "a \<noteq> []" "\<forall>c \<in> set a. isUpperHexDigit c"
    by simp_all
  let ?f = "flagOf (last r)"
  let ?g = "if ?f = ''A:'' then ''B:'' else ''A:''"
  let ?agg = "?f @ tp @ ''0xK'' @ a"
  let ?corr = "map (\<lambda>b. ?g @ tp @ ''0x'' @ [bitLetters ! b] @ a) (runMissingBits r)"
  from True have f: "?f \<in> set [''A:'', ''B:'']"
    by (simp add: runCompressible_def)
  have g: "?g \<in> set [''A:'', ''B:'']" by simp
  have aggkey: "bitKey ?agg = None"
    using f tp a(2) by (rule bitKey_bitCount_line)
  have corrkey: "\<forall>x \<in> set ?corr. bitKey x = Some k"
  proof
    fix x assume "x \<in> set ?corr"
    then obtain b where b: "b \<in> set (runMissingBits r)" and x: "x = ?g @ tp @ ''0x'' @ [bitLetters ! b] @ a"
      by auto
    from b have "b < 8" by (simp add: runMissingBits_def)
    from bitInfo_canonical[OF g tp this a] show "bitKey x = Some k"
      by (simp add: bitKey_def x k)
  qed
  have corrlen: "length ?corr \<le> 4" using few True by simp
  have corrruns: "\<forall>q \<in> set (maximalRuns ?corr). \<not> runCompressible q"
  proof (cases "?corr = []")
    case True
    then show ?thesis by simp
  next
    case False
    then have "maximalRuns ?corr = [?corr]" using corrkey by (rule maximalRuns_same_key)
    then show ?thesis using corrlen not_compressible_short[of ?corr] by simp
  qed
  have aggruns: "maximalRuns [?agg] = [[?agg]]"
    using aggkey by (simp add: maximalRuns_Cons_None del: maximalRuns.simps(2))
  have aggnc: "\<not> runCompressible [?agg]"
    using aggkey by (simp add: not_compressible_plain)
  have rw: "compressedRun r = (if ?f = ''A:'' then ?agg # ?corr else ?corr @ [?agg])"
    using True key k by (simp add: compressedRun_def runRewritten_def Let_def)
  show ?thesis
  proof (cases "?f = ''A:''")
    case A: True
    have cr: "compressedRun r = ?agg # ?corr" using rw A by simp
    have "maximalRuns (?agg # ?corr) = [?agg] # maximalRuns ?corr"
      using aggkey by (rule maximalRuns_Cons_None)
    then show ?thesis
      unfolding cr using aggkey corrkey corrruns aggnc by simp
  next
    case B: False
    have cr: "compressedRun r = ?corr @ [?agg]" using rw B by simp
    have "maximalRuns (?corr @ [?agg]) = maximalRuns ?corr @ maximalRuns [?agg]"
    proof (rule maximalRuns_append)
      show "?corr = [] \<or> [?agg] = [] \<or> bitKey (last ?corr) = None
            \<or> bitKey (hd [?agg]) \<noteq> bitKey (last ?corr)"
      proof (cases "?corr = []")
        case True then show ?thesis by blast
      next
        case False
        then have "last ?corr \<in> set ?corr" by (rule last_in_set)
        with corrkey have "bitKey (last ?corr) = Some k" by blast
        with aggkey show ?thesis by simp
      qed
    qed
    then show ?thesis
      unfolding cr using aggkey corrkey corrruns aggnc aggruns by auto
  qed
qed

lemma hd_dropWhile_not: "dropWhile P xs \<noteq> [] \<Longrightarrow> \<not> P (hd (dropWhile P xs))"
  by (rule hd_dropWhile)

lemma compressed_stable:
  assumes "\<forall>r \<in> set (maximalRuns ls). runCompressible r \<longrightarrow> length (runMissingBits r) \<le> 4"
  shows "(\<forall>q \<in> set (maximalRuns (concat (map compressedRun (maximalRuns ls)))). \<not> runCompressible q)
         \<and> (ls \<noteq> [] \<longrightarrow> concat (map compressedRun (maximalRuns ls)) \<noteq> []
               \<and> (bitKey (hd (concat (map compressedRun (maximalRuns ls)))) = None
                   \<or> bitKey (hd (concat (map compressedRun (maximalRuns ls)))) = bitKey (hd ls)))"
  using assms
proof (induction ls rule: maximalRuns.induct)
  case 1
  show ?case by simp
next
  case (2 l ls)
  let ?out = "\<lambda>xs. concat (map compressedRun (maximalRuns xs))"
  show ?case
  proof (cases "bitKey l")
    case None
    have runs: "maximalRuns (l # ls) = [l] # maximalRuns ls"
      using None by (rule maximalRuns_Cons_None)
    have nc: "\<not> runCompressible [l]" using None by (simp add: not_compressible_plain)
    then have c1: "compressedRun [l] = [l]" by (simp add: compressedRun_def)
    have out: "?out (l # ls) = l # ?out ls"
      unfolding runs using c1 by simp
    have H: "\<forall>r \<in> set (maximalRuns ls). runCompressible r \<longrightarrow> length (runMissingBits r) \<le> 4"
      using 2(3) unfolding runs by simp
    from 2(1)[OF None H] have IH: "\<forall>q \<in> set (maximalRuns (?out ls)). \<not> runCompressible q" by blast
    have "maximalRuns (l # ?out ls) = [l] # maximalRuns (?out ls)"
      using None by (rule maximalRuns_Cons_None)
    then show ?thesis
      unfolding out using IH nc None by simp
  next
    case (Some k)
    let ?P = "\<lambda>x. bitKey x = Some k"
    let ?r1 = "l # takeWhile ?P ls"
    let ?rest = "dropWhile ?P ls"
    have runs: "maximalRuns (l # ls) = ?r1 # maximalRuns ?rest"
      using Some by (rule maximalRuns_Cons_Some)
    have out: "?out (l # ls) = compressedRun ?r1 @ ?out ?rest"
      unfolding runs by simp
    have r1in: "?r1 \<in> set (maximalRuns (l # ls))" unfolding runs by simp
    have r1key: "bitKey (hd ?r1) = Some k" using Some by simp
    have r1few: "runCompressible ?r1 \<longrightarrow> length (runMissingBits ?r1) \<le> 4"
      using 2(3) r1in by blast
    from compressedRun_props[OF r1in r1key r1few]
    have c_ne: "compressedRun ?r1 \<noteq> []"
      and c_keys: "\<forall>x \<in> set (compressedRun ?r1). bitKey x = None \<or> bitKey x = Some k"
      and c_st: "\<forall>q \<in> set (maximalRuns (compressedRun ?r1)). \<not> runCompressible q"
      by blast+
    have H: "\<forall>r \<in> set (maximalRuns ?rest). runCompressible r \<longrightarrow> length (runMissingBits r) \<le> 4"
      using 2(3) unfolding runs by simp
    from 2(2)[OF Some H]
    have IH1: "\<forall>q \<in> set (maximalRuns (?out ?rest)). \<not> runCompressible q"
      and IH2: "?rest \<noteq> [] \<longrightarrow> ?out ?rest \<noteq> []
                 \<and> (bitKey (hd (?out ?rest)) = None \<or> bitKey (hd (?out ?rest)) = bitKey (hd ?rest))"
      by blast+
    have boundary: "compressedRun ?r1 = [] \<or> ?out ?rest = [] \<or> bitKey (last (compressedRun ?r1)) = None
                    \<or> bitKey (hd (?out ?rest)) \<noteq> bitKey (last (compressedRun ?r1))"
    proof (cases "?rest = []")
      case True
      have "?out ?rest = []" unfolding True by simp
      then show ?thesis by blast
    next
      case False
      have lastin: "last (compressedRun ?r1) \<in> set (compressedRun ?r1)"
        using c_ne by (rule last_in_set)
      have hdrest: "bitKey (hd ?rest) \<noteq> Some k"
        using hd_dropWhile_not[OF False] .
      from False IH2 have "bitKey (hd (?out ?rest)) = None \<or> bitKey (hd (?out ?rest)) = bitKey (hd ?rest)"
        by blast
      with hdrest have "bitKey (hd (?out ?rest)) \<noteq> Some k" by auto
      moreover from c_keys lastin
      have "bitKey (last (compressedRun ?r1)) = None \<or> bitKey (last (compressedRun ?r1)) = Some k"
        by blast
      ultimately show ?thesis by auto
    qed
    have split: "maximalRuns (compressedRun ?r1 @ ?out ?rest)
                 = maximalRuns (compressedRun ?r1) @ maximalRuns (?out ?rest)"
      using boundary by (rule maximalRuns_append)
    have hdin: "hd (compressedRun ?r1) \<in> set (compressedRun ?r1)"
      using c_ne by (rule hd_in_set)
    have hdout: "hd (compressedRun ?r1 @ ?out ?rest) = hd (compressedRun ?r1)"
      using c_ne by simp
    have hdkey: "bitKey (hd (compressedRun ?r1)) = None \<or> bitKey (hd (compressedRun ?r1)) = Some k"
      using c_keys hdin by blast
    show ?thesis
      unfolding out split hdout using c_st IH1 c_ne hdkey Some by auto
  qed
qed

lemma compressBits_idempotent:
  assumes "\<forall>r \<in> set (maximalRuns ls). runCompressible r \<longrightarrow> length (runMissingBits r) \<le> 4"
  shows "compressBits (compressBits ls) = compressBits ls"
proof -
  from compressed_stable[OF assms]
  have "\<forall>q \<in> set (maximalRuns (compressBits ls)). \<not> runCompressible q"
    by (simp add: compressBits_runs)
  then show ?thesis by (rule compressBits_noop)
qed

lemma compressBits_identity:
  assumes "\<forall>r \<in> set (maximalRuns ls). bitKey (hd r) \<noteq> None \<longrightarrow> length r < 5"
  shows "compressBits ls = ls"
proof (rule compressBits_noop)
  show "\<forall>r \<in> set (maximalRuns ls). \<not> runCompressible r"
    using assms by (auto simp: runCompressible_def)
qed

lemma singleBitRuns_maximalRuns:
  assumes "\<forall>l \<in> set ls. readsAsParser l"
  shows "singleBitRuns ls = maximalRuns ls"
  using assms
proof (induction ls rule: maximalRuns.induct)
  case 1
  then show ?case by simp
next
  case (2 l ls)
  let ?g = "asMemory"
  have inj: "?g k = ?g k' \<longleftrightarrow> k = k'" for k k'
    by (cases k; cases k') (simp add: asMemory_def)
  have r: "singleBitKey x = map_option ?g (bitKey x)" if "x \<in> set (l # ls)" for x
    using "2.prems" that by (simp only: readsAsParser_def)
  show ?case
  proof (cases "bitKey l")
    case None
    then have "singleBitKey l = None" using r[of l] by simp
    moreover have "singleBitRuns ls = maximalRuns ls"
      using "2.IH"(1)[OF None] "2.prems" by simp
    ultimately show ?thesis using None by simp
  next
    case (Some k)
    then have sk: "singleBitKey l = Some (?g k)" using r[of l] by simp
    have same: "(singleBitKey x = Some (?g k)) = (bitKey x = Some k)" if "x \<in> set ls" for x
    proof (cases "bitKey x")
      case None
      then show ?thesis using r[of x] that by simp
    next
      case (Some k')
      then have "singleBitKey x = Some (?g k')" using r[of x] that by simp
      then show ?thesis using Some inj[of k' k] by simp
    qed
    have tw: "takeWhile (\<lambda>x. singleBitKey x = Some (?g k)) ls = takeWhile (\<lambda>x. bitKey x = Some k) ls"
      by (rule takeWhile_cong[OF refl]) (rule same)
    have dw: "dropWhile (\<lambda>x. singleBitKey x = Some (?g k)) ls = dropWhile (\<lambda>x. bitKey x = Some k) ls"
      by (rule dropWhile_cong[OF refl]) (rule same)
    have "\<forall>l \<in> set (dropWhile (\<lambda>x. bitKey x = Some k) ls). readsAsParser l"
      using "2.prems" set_dropWhileD by fastforce
    then have "singleBitRuns (dropWhile (\<lambda>x. bitKey x = Some k) ls)
               = maximalRuns (dropWhile (\<lambda>x. bitKey x = Some k) ls)"
      using "2.IH"(2)[OF Some] by blast
    then show ?thesis
      using Some sk by (simp add: tw dw)
  qed
qed

lemma maximalRuns_hd_member:
  assumes "r \<in> set (maximalRuns ls)"
  shows "hd r \<in> set ls"
proof -
  from maximalRuns_member[OF assms] have "r \<noteq> []" by blast
  then have "hd r \<in> set r" by (rule hd_in_set)
  with assms have "hd r \<in> set (concat (maximalRuns ls))" by auto
  then show ?thesis by (simp only: concat_maximalRuns)
qed

lemma compressBits_identity_as_parsed:
  assumes agree: "\<forall>l \<in> set ls. readsAsParser l"
    and short: "\<forall>r \<in> set (singleBitRuns ls). singleBitKey (hd r) \<noteq> None \<longrightarrow> length r < 5"
  shows "compressBits ls = ls"
proof (rule compressBits_identity)
  show "\<forall>r \<in> set (maximalRuns ls). bitKey (hd r) \<noteq> None \<longrightarrow> length r < 5"
  proof (intro ballI impI)
    fix r assume r: "r \<in> set (maximalRuns ls)" and k: "bitKey (hd r) \<noteq> None"
    from maximalRuns_hd_member[OF r] agree have "readsAsParser (hd r)" by blast
    with k have "singleBitKey (hd r) \<noteq> None"
      by (simp add: readsAsParser_def)
    moreover from r have "r \<in> set (singleBitRuns ls)"
      by (simp only: singleBitRuns_maximalRuns[OF agree])
    ultimately show "length r < 5" using short by blast
  qed
qed

text \<open>
  Claim C4, at two line sequences the parser accepts. In the first, two single-bit lines on
  address \<open>0x1A\<close> are followed by three on address \<open>0x1B\<close>, the addresses
  written with lower-case digits: no run has five members, so by the claim no line is
  rewritten. The expression of \<open>compressBits\<close> matches upper-case digits only and ends
  the address at the first lower-case one, so it reads the address \<open>1\<close> in all five
  lines and rewrites them as one run, into lines on address \<open>0x1\<close>. In the second, an
  8-bit comparison whose right operand is a single bit is followed by four single-bit lines on
  the address of that bit: the run has four members. The expression is not anchored and
  finds the bit on the right of the comparison, so the comparison is rewritten together with
  the four lines and is lost.
\<close>

theorem compressBits_merges_different_addresses:
  "map singleBitLine [''A:0xM1a'', ''A:0xN1a'', ''A:0xO1b'', ''A:0xP1b'', ''A:0xQ1b'']
     = [Some (''0x1A'', [], 0, ''A:''), Some (''0x1A'', [], 1, ''A:''), Some (''0x1B'', [], 2, ''A:''),
        Some (''0x1B'', [], 3, ''A:''), Some (''0x1B'', [], 4, ''A:'')]
   \<and> singleBitRuns [''A:0xM1a'', ''A:0xN1a'', ''A:0xO1b'', ''A:0xP1b'', ''A:0xQ1b'']
     = [[''A:0xM1a'', ''A:0xN1a''], [''A:0xO1b'', ''A:0xP1b'', ''A:0xQ1b'']]
   \<and> compressBits [''A:0xM1a'', ''A:0xN1a'', ''A:0xO1b'', ''A:0xP1b'', ''A:0xQ1b'']
     = [''A:0xK1'', ''B:0xR1'', ''B:0xS1'', ''B:0xT1'']
   \<and> map singleBitLine [''0xH10=0xM1F'', ''A:0xN1F'', ''A:0xO1F'', ''A:0xP1F'', ''A:0xQ1F'']
     = [None, Some (''0x1F'', [], 1, ''A:''), Some (''0x1F'', [], 2, ''A:''),
        Some (''0x1F'', [], 3, ''A:''), Some (''0x1F'', [], 4, ''A:'')]
   \<and> singleBitRuns [''0xH10=0xM1F'', ''A:0xN1F'', ''A:0xO1F'', ''A:0xP1F'', ''A:0xQ1F'']
     = [[''0xH10=0xM1F''], [''A:0xN1F'', ''A:0xO1F'', ''A:0xP1F'', ''A:0xQ1F'']]
   \<and> compressBits [''0xH10=0xM1F'', ''A:0xN1F'', ''A:0xO1F'', ''A:0xP1F'', ''A:0xQ1F'']
     = [''A:0xK1F'', ''B:0xR1F'', ''B:0xS1F'', ''B:0xT1F'']"
  by code_simp

text \<open>
  Claim C5, as stated. Evaluation on five copies of the line \<open>A:0xM12\<close> (what five
  repetitions of an unmodified line give): the run has 5 members and one distinct bit, its
  compression has 7 corrective lines, and these form a compressible run of their own, so a
  second compression changes the result.
\<close>

theorem compressBits_not_idempotent_counterexample:
  "compressBits [''A:0xM12'', ''A:0xM12'', ''A:0xM12'', ''A:0xM12'', ''A:0xM12'']
     = [''A:0xK12'', ''B:0xN12'', ''B:0xO12'', ''B:0xP12'', ''B:0xQ12'', ''B:0xR12'', ''B:0xS12'', ''B:0xT12'']
   \<and> compressBits (compressBits [''A:0xM12'', ''A:0xM12'', ''A:0xM12'', ''A:0xM12'', ''A:0xM12''])
     = [''A:0xK12'', ''A:0xM12'', ''B:0xK12'']"
  by code_simp

text \<open>
  Claim C5, amended. A line sequence in which \<open>compressBits\<close> finds no run of at least 5
  single-bit lines with the same address and the same type modifier is returned unchanged,
  where \<open>compressBits\<close> reads a line through the first match of its expression,
  wherever in the line it is. In particular a line sequence is returned unchanged when
  \<open>compressBits\<close> reads each of its lines as the parser does and it has no run of at
  least 5 single-bit comparison lines on the same address with the same type modifier. A
  second compression changes nothing for every line sequence in which at most 4 bits are
  absent from each run that is rewritten (each such run has at least 4 distinct bits).
\<close>

theorem compressBits_identity_and_idempotent:
  "((\<forall>r \<in> set (maximalRuns x). bitKey (hd r) \<noteq> None \<longrightarrow> length r < 5) \<longrightarrow> compressBits x = x)
   \<and> ((\<forall>l \<in> set z. readsAsParser l)
        \<and> (\<forall>r \<in> set (singleBitRuns z). singleBitKey (hd r) \<noteq> None \<longrightarrow> length r < 5)
      \<longrightarrow> compressBits z = z)
   \<and> ((\<forall>r \<in> set (maximalRuns y). runCompressible r \<longrightarrow> length (runMissingBits r) \<le> 4)
        \<longrightarrow> compressBits (compressBits y) = compressBits y)"
  using compressBits_identity[of x] compressBits_identity_as_parsed[of z] compressBits_idempotent[of y]
  by blast

theorem compressBits_identity_and_idempotent_witness:
  "list_all (\<lambda>r. bitKey (hd r) \<noteq> None \<longrightarrow> length r < 5)
      (maximalRuns [''A:0xM12'', ''A:0xN12'', ''0xH10=1'', ''A:0xO12'', ''A:0xP12'', ''A:0xQ12''])
   \<and> compressBits [''A:0xM12'', ''A:0xN12'', ''0xH10=1'', ''A:0xO12'', ''A:0xP12'', ''A:0xQ12'']
       = [''A:0xM12'', ''A:0xN12'', ''0xH10=1'', ''A:0xO12'', ''A:0xP12'', ''A:0xQ12'']
   \<and> list_all readsAsParser [''A:0xM12'', ''A:0xN12'', ''0xH10=1'', ''d0xO12=1'', ''A:d0xP12'', ''A:d0xQ12'']
   \<and> list_all (\<lambda>r. singleBitKey (hd r) \<noteq> None \<longrightarrow> length r < 5)
      (singleBitRuns [''A:0xM12'', ''A:0xN12'', ''0xH10=1'', ''d0xO12=1'', ''A:d0xP12'', ''A:d0xQ12''])
   \<and> compressBits [''A:0xM12'', ''A:0xN12'', ''0xH10=1'', ''d0xO12=1'', ''A:d0xP12'', ''A:d0xQ12'']
       = [''A:0xM12'', ''A:0xN12'', ''0xH10=1'', ''d0xO12=1'', ''A:d0xP12'', ''A:d0xQ12'']
   \<and> list_all (\<lambda>r. runCompressible r \<longrightarrow> length (runMissingBits r) \<le> 4)
      (maximalRuns [''B:0xM12'', ''B:0xN12'', ''B:0xO12'', ''B:0xP12'', ''B:0xQ12'', ''0xH10=1''])
   \<and> compressBits (compressBits [''B:0xM12'', ''B:0xN12'', ''B:0xO12'', ''B:0xP12'', ''B:0xQ12'', ''0xH10=1''])
       = compressBits [''B:0xM12'', ''B:0xN12'', ''B:0xO12'', ''B:0xP12'', ''B:0xQ12'', ''0xH10=1'']
   \<and> compressBits [''B:0xM12'', ''B:0xN12'', ''B:0xO12'', ''B:0xP12'', ''B:0xQ12'', ''0xH10=1'']
       = [''A:0xR12'', ''A:0xS12'', ''A:0xT12'', ''B:0xK12'', ''0xH10=1'']"
proof -
  let ?x = "[''A:0xM12'', ''A:0xN12'', ''0xH10=1'', ''A:0xO12'', ''A:0xP12'', ''A:0xQ12'']"
  let ?z = "[''A:0xM12'', ''A:0xN12'', ''0xH10=1'', ''d0xO12=1'', ''A:d0xP12'', ''A:d0xQ12'']"
  let ?y = "[''B:0xM12'', ''B:0xN12'', ''B:0xO12'', ''B:0xP12'', ''B:0xQ12'', ''0xH10=1'']"
  have h1: "list_all (\<lambda>r. bitKey (hd r) \<noteq> None \<longrightarrow> length r < 5) (maximalRuns ?x)"
    by code_simp
  have h2: "list_all (\<lambda>r. runCompressible r \<longrightarrow> length (runMissingBits r) \<le> 4) (maximalRuns ?y)"
    by code_simp
  have h3: "list_all readsAsParser ?z"
    by code_simp
  have h4: "list_all (\<lambda>r. singleBitKey (hd r) \<noteq> None \<longrightarrow> length r < 5) (singleBitRuns ?z)"
    by code_simp
  have e: "compressBits ?y = [''A:0xR12'', ''A:0xS12'', ''A:0xT12'', ''B:0xK12'', ''0xH10=1'']"
    by code_simp
  from h1 have h1': "\<forall>r \<in> set (maximalRuns ?x). bitKey (hd r) \<noteq> None \<longrightarrow> length r < 5"
    by (simp only: list_all_iff)
  from h2 have h2': "\<forall>r \<in> set (maximalRuns ?y). runCompressible r \<longrightarrow> length (runMissingBits r) \<le> 4"
    by (simp only: list_all_iff)
  from h3 have h3': "\<forall>l \<in> set ?z. readsAsParser l"
    by (simp only: list_all_iff)
  from h4 have h4': "\<forall>r \<in> set (singleBitRuns ?z). singleBitKey (hd r) \<noteq> None \<longrightarrow> length r < 5"
    by (simp only: list_all_iff)
  from compressBits_identity_and_idempotent[of ?x ?z ?y] h1' h2' h3' h4'
  have "compressBits ?x = ?x" and "compressBits ?z = ?z"
    and "compressBits (compressBits ?y) = compressBits ?y"
    by blast+
  with h1 h2 h3 h4 e show ?thesis by blast
qed

subsection \<open>Remember and recall\<close>

lemma underscoreFree_iff: "underscoreFree ls \<longleftrightarrow> (\<forall>l \<in> set ls. CHR ''_'' \<notin> set l)"
  by (simp add: underscoreFree_def list_all_iff)

lemma splitUnderscore_nonempty: "splitUnderscore s \<noteq> []"
  by (induction s) (auto split: list.splits)

lemma splitUnderscore_free: "l \<in> set (splitUnderscore s) \<Longrightarrow> CHR ''_'' \<notin> set l"
proof (induction s arbitrary: l)
  case Nil
  then show ?case by simp
next
  case (Cons c cs)
  show ?case
  proof (cases "c = CHR ''_''")
    case True
    with Cons show ?thesis by auto
  next
    case False
    obtain w ws where ws: "splitUnderscore cs = w # ws"
      using splitUnderscore_nonempty[of cs] by (cases "splitUnderscore cs") auto
    with Cons.prems False have "l = c # w \<or> l \<in> set ws" by simp
    then show ?thesis
      using Cons.IH ws False by auto
  qed
qed

lemma trim_Nil: "trim [] = []"
  by (simp add: trim_def)

lemma rrLines_free: "underscoreFree (rrLines s)"
  by (auto simp: underscoreFree_iff rrLines_def dest: splitUnderscore_free)

lemma rrLines_nonblank: "l \<in> set (rrLines s) \<Longrightarrow> l \<noteq> []"
  by (auto simp: rrLines_def trim_Nil)

lemma joinUnderscore_Cons:
  "joinUnderscore (x # xs) = x @ (if xs = [] then [] else ''_'' @ joinUnderscore xs)"
  by (cases xs) simp_all

lemma takeWhile_until: "c \<notin> set x \<Longrightarrow> takeWhile (\<lambda>d. d \<noteq> c) (x @ c # r) = x"
  by (induction x) auto

lemma takeWhile_whole: "c \<notin> set x \<Longrightarrow> takeWhile (\<lambda>d. d \<noteq> c) x = x"
  by (induction x) auto

lemma split_at_underscore:
  assumes "CHR ''_'' \<notin> set x" "CHR ''_'' \<notin> set y"
    and "A = [] \<or> hd A = CHR ''_''" "B = [] \<or> hd B = CHR ''_''"
    and "x @ A = y @ B"
  shows "x = y \<and> A = B"
proof -
  have tx: "takeWhile (\<lambda>c. c \<noteq> CHR ''_'') (x @ A) = x"
    using assms(1,3) by (cases A) (simp_all add: takeWhile_until takeWhile_whole)
  have ty: "takeWhile (\<lambda>c. c \<noteq> CHR ''_'') (y @ B) = y"
    using assms(2,4) by (cases B) (simp_all add: takeWhile_until takeWhile_whole)
  from tx ty assms(5) have "x = y" by simp
  with assms(5) show ?thesis by simp
qed

lemma joinUnderscore_inj:
  "underscoreFree xs \<Longrightarrow> underscoreFree ys \<Longrightarrow> xs \<noteq> [] \<Longrightarrow> ys \<noteq> []
   \<Longrightarrow> joinUnderscore xs = joinUnderscore ys \<Longrightarrow> xs = ys"
proof (induction xs arbitrary: ys)
  case Nil
  then show ?case by simp
next
  case (Cons x xs)
  from Cons.prems(4) obtain y ys' where ys: "ys = y # ys'" by (cases ys) auto
  let ?A = "if xs = [] then [] else ''_'' @ joinUnderscore xs"
  let ?B = "if ys' = [] then [] else ''_'' @ joinUnderscore ys'"
  have eq: "x @ ?A = y @ ?B"
    using Cons.prems(5) unfolding ys joinUnderscore_Cons .
  have fx: "CHR ''_'' \<notin> set x" and fy: "CHR ''_'' \<notin> set y"
    using Cons.prems(1,2) ys by (simp_all add: underscoreFree_iff)
  have "x = y \<and> ?A = ?B"
    using fx fy _ _ eq by (rule split_at_underscore) simp_all
  then have xy: "x = y" and AB: "?A = ?B" by blast+
  show ?case
  proof (cases "xs = []")
    case True
    with AB have "ys' = []" by (cases "ys' = []") simp_all
    with True xy ys show ?thesis by simp
  next
    case False
    with AB have ne: "ys' \<noteq> []" by (cases "ys' = []") simp_all
    with AB False have "joinUnderscore xs = joinUnderscore ys'" by simp
    moreover have "underscoreFree xs" "underscoreFree ys'"
      using Cons.prems(1,2) ys by (simp_all add: underscoreFree_iff)
    ultimately have "xs = ys'" using Cons.IH False ne by blast
    with xy ys show ?thesis by simp
  qed
qed

lemma underscoreFree_take_drop:
  "underscoreFree ls \<Longrightarrow> underscoreFree (take n (drop i ls))"
  by (auto simp: underscoreFree_iff dest: in_set_takeD in_set_dropD)

lemma underscoreFree_take: "underscoreFree ls \<Longrightarrow> underscoreFree (take n ls)"
  by (auto simp: underscoreFree_iff dest: in_set_takeD)

lemma underscoreFree_drop: "underscoreFree ls \<Longrightarrow> underscoreFree (drop n ls)"
  by (auto simp: underscoreFree_iff dest: in_set_dropD)

text \<open>The comparison of joined strings is the comparison of the line sequences.\<close>

lemma join_eq_iff:
  assumes "underscoreFree xs" "underscoreFree ys" "xs \<noteq> []" "ys \<noteq> []"
  shows "joinUnderscore xs = joinUnderscore ys \<longleftrightarrow> xs = ys"
  using joinUnderscore_inj[OF assms] by auto

lemma recallWalk_Nil: "recallWalk pat rc [] = []"
  by (simp add: recallWalk.simps)

lemma recallWalk_match:
  "ls \<noteq> [] \<Longrightarrow> pat \<noteq> [] \<Longrightarrow> take (length pat) ls = pat
   \<Longrightarrow> recallWalk pat rc ls = rc # recallWalk pat rc (drop (length pat) ls)"
  by (subst recallWalk.simps) simp

lemma recallWalk_copy:
  "ls \<noteq> [] \<Longrightarrow> \<not> (pat \<noteq> [] \<and> take (length pat) ls = pat)
   \<Longrightarrow> recallWalk pat rc ls = hd ls # recallWalk pat rc (tl ls)"
  by (subst recallWalk.simps) auto

lemma recallWalk_Nil_iff: "recallWalk pat rc ls = [] \<longleftrightarrow> ls = []"
  by (subst recallWalk.simps) auto

lemma recallWalk_short: "length ls < length pat \<Longrightarrow> recallWalk pat rc ls = ls"
proof (induction ls)
  case Nil
  show ?case by (rule recallWalk_Nil)
next
  case (Cons l ls)
  have "length (take (length pat) (l # ls)) \<noteq> length pat"
    using Cons.prems by (simp add: min_def)
  then have "take (length pat) (l # ls) \<noteq> pat"
    by (rule contrapos_nn) simp
  then have "recallWalk pat rc (l # ls) = l # recallWalk pat rc ls"
    using recallWalk_copy[of "l # ls" pat rc] by simp
  with Cons show ?case by simp
qed

lemma recallWalk_set: "set (recallWalk pat rc ls) \<subseteq> insert rc (set ls)"
proof (induction pat rc ls rule: recallWalk.induct)
  case (1 pat rc ls)
  show ?case
  proof (cases "ls = []")
    case True
    then show ?thesis by (simp add: recallWalk_Nil)
  next
    case False
    show ?thesis
    proof (cases "pat \<noteq> [] \<and> take (length pat) ls = pat")
      case True
      with False 1(1) have "set (recallWalk pat rc (drop (length pat) ls)) \<subseteq> insert rc (set (drop (length pat) ls))"
        by blast
      then show ?thesis
        using True False recallWalk_match[of ls pat rc] by (auto dest: in_set_dropD)
    next
      case F2: False
      with False 1(2) have "set (recallWalk pat rc (tl ls)) \<subseteq> insert rc (set (tl ls))"
        by blast
      then show ?thesis
        using F2 False recallWalk_copy[of ls pat rc] by (cases ls) auto
    qed
  qed
qed

lemma buildOptimized_walk:
  assumes pat: "underscoreFree pat" "pat \<noteq> []"
  shows "underscoreFree rest \<Longrightarrow>
           buildOptimized (length pat) (joinUnderscore pat) rc acc rest
             = acc @ joinUnderscore (recallWalk pat rc rest)"
proof (induction rest arbitrary: acc rule: length_induct)
  case (1 rest)
  let ?L = "length pat"
  have L: "0 < ?L" using pat(2) by simp
  show ?case
  proof (cases "rest = []")
    case True
    then show ?thesis
      by (subst buildOptimized.simps) (simp add: recallWalk_Nil)
  next
    case ne: False
    show ?thesis
    proof (cases "?L \<le> length rest")
      case short: False
      then have "recallWalk pat rc rest = rest" by (simp add: recallWalk_short)
      then show ?thesis
        using ne short by (subst buildOptimized.simps) simp
    next
      case long: True
      have tne: "take ?L rest \<noteq> []" using ne L by simp
      have tf: "underscoreFree (take ?L rest)" using 1(2) by (rule underscoreFree_take)
      have test: "(joinUnderscore (take ?L rest) = joinUnderscore pat) = (take ?L rest = pat)"
        using tf pat(1) tne pat(2) by (rule join_eq_iff)
      show ?thesis
      proof (cases "take ?L rest = pat")
        case True
        let ?rest' = "drop ?L rest"
        have less: "length ?rest' < length rest" using L ne by simp
        have f': "underscoreFree ?rest'" using 1(2) by (rule underscoreFree_drop)
        have IH: "buildOptimized ?L (joinUnderscore pat) rc acc' ?rest'
                    = acc' @ joinUnderscore (recallWalk pat rc ?rest')" for acc'
          using 1(1) less f' by blast
        have step: "buildOptimized ?L (joinUnderscore pat) rc acc rest
              = buildOptimized ?L (joinUnderscore pat) rc
                  (acc @ rc @ (if ?rest' \<noteq> [] then ''_'' else [])) ?rest'"
          using ne long L test True by (subst buildOptimized.simps) simp
        have walk: "recallWalk pat rc rest = rc # recallWalk pat rc ?rest'"
          using ne pat(2) True by (rule recallWalk_match)
        show ?thesis
          unfolding step IH walk joinUnderscore_Cons
          by (simp add: recallWalk_Nil_iff recallWalk_Nil)
      next
        case False
        have less: "length (tl rest) < length rest" using ne by simp
        have f': "underscoreFree (tl rest)" using 1(2) by (cases rest) (simp_all add: underscoreFree_iff)
        have IH: "buildOptimized ?L (joinUnderscore pat) rc acc' (tl rest)
                    = acc' @ joinUnderscore (recallWalk pat rc (tl rest))" for acc'
          using 1(1) less f' by blast
        have step: "buildOptimized ?L (joinUnderscore pat) rc acc rest
              = buildOptimized ?L (joinUnderscore pat) rc
                  (acc @ hd rest @ (if tl rest \<noteq> [] then ''_'' else [])) (tl rest)"
          using ne long L test False by (subst buildOptimized.simps) simp
        have walk: "recallWalk pat rc rest = hd rest # recallWalk pat rc (tl rest)"
          using ne False by (intro recallWalk_copy) simp_all
        show ?thesis
          unfolding step IH walk joinUnderscore_Cons
          by (simp add: recallWalk_Nil_iff recallWalk_Nil)
      qed
    qed
  qed
qed

lemma joinUnderscore_last:
  "W \<noteq> [] \<Longrightarrow> \<forall>w \<in> set W. w \<noteq> [] \<and> last w \<noteq> CHR ''_''
   \<Longrightarrow> joinUnderscore W \<noteq> [] \<and> last (joinUnderscore W) \<noteq> CHR ''_''"
proof (induction W)
  case Nil
  then show ?case by simp
next
  case (Cons w W)
  show ?case
  proof (cases "W = []")
    case True
    with Cons.prems show ?thesis by simp
  next
    case False
    with Cons have "joinUnderscore W \<noteq> [] \<and> last (joinUnderscore W) \<noteq> CHR ''_''" by simp
    with False show ?thesis by (simp add: joinUnderscore_Cons)
  qed
qed

lemma joinUnderscore_append:
  "xs \<noteq> [] \<Longrightarrow> ys \<noteq> [] \<Longrightarrow> joinUnderscore (xs @ ys) = joinUnderscore xs @ ''_'' @ joinUnderscore ys"
proof (induction xs)
  case Nil
  then show ?case by simp
next
  case (Cons x xs)
  then show ?case
    by (cases "xs = []") (simp_all add: joinUnderscore_Cons)
qed

lemma replaceFirst_prefix: "startsWith s pat \<Longrightarrow> replaceFirst pat rep s = rep @ drop (length pat) s"
  by (cases s) (auto simp: startsWith_def)

lemma matchFlag_Some: "matchFlag s = Some f \<Longrightarrow> startsWith s f \<and> length f = 2 \<and> s \<noteq> []"
  by (auto simp: matchFlag_def startsWith_def split: list.splits if_splits)

lemma list_update_last: "pl \<noteq> [] \<Longrightarrow> pl[length pl - Suc 0 := v] = butlast pl @ [v]"
  by (induction pl rule: rev_induct) (simp_all add: list_update_append)

lemma last_not_underscore: "l \<noteq> [] \<Longrightarrow> CHR ''_'' \<notin> set l \<Longrightarrow> last l \<noteq> CHR ''_''"
  using last_in_set by metis

text \<open>The result of the rewriting, once a pattern with a flag on its last line is selected.\<close>

lemma applyRROptimization_selected:
  assumes fb: "findBestPattern (rrLines s) = Some p"
    and mf: "matchFlag (last (patLines p)) = Some f"
    and len: "patLength p = length (patLines p)" "patLines p \<noteq> []"
    and free: "underscoreFree (patLines p)"
    and ne: "rrLines s \<noteq> []"
  shows "optimizedLogic (applyRROptimization s)
           = joinUnderscore (rememberVersion (patLines p) @ recallWalk (patLines p) (f @ ''{recall}'') (rrLines s))"
proof -
  let ?pl = "patLines p" and ?ls = "rrLines s" and ?rc = "f @ ''{recall}''"
  let ?W = "recallWalk ?pl ?rc ?ls"
  from matchFlag_Some[OF mf] have sw: "startsWith (last ?pl) f" and f2: "length f = 2" by simp_all
  have rem: "?pl[length ?pl - 1 := replaceFirst f ''K:'' (last ?pl)] = rememberVersion ?pl"
    using len(2) sw f2 by (simp add: list_update_last replaceFirst_prefix rememberVersion_def)
  have unfold: "optimizedLogic (applyRROptimization s)
      = stripTrailingUnderscore
          (buildOptimized (patLength p) (joinUnderscore ?pl) ?rc
             (joinUnderscore (?pl[length ?pl - 1 := replaceFirst f ''K:'' (last ?pl)]) @ ''_'') ?ls)"
    using fb mf by (simp add: applyRROptimization_def Let_def)
  have built: "buildOptimized (patLength p) (joinUnderscore ?pl) ?rc (joinUnderscore (rememberVersion ?pl) @ ''_'') ?ls
                 = (joinUnderscore (rememberVersion ?pl) @ ''_'') @ joinUnderscore ?W"
    unfolding len(1) using free len(2) rrLines_free by (rule buildOptimized_walk)
  have Wne: "?W \<noteq> []" using ne by (simp add: recallWalk_Nil_iff)
  have Wlast: "\<forall>w \<in> set ?W. w \<noteq> [] \<and> last w \<noteq> CHR ''_''"
  proof
    fix w assume "w \<in> set ?W"
    with recallWalk_set[of ?pl ?rc ?ls] have "w = ?rc \<or> w \<in> set ?ls" by auto
    then show "w \<noteq> [] \<and> last w \<noteq> CHR ''_''"
    proof
      assume "w = ?rc" then show ?thesis by simp
    next
      assume w: "w \<in> set ?ls"
      then have "w \<noteq> []" by (rule rrLines_nonblank)
      moreover have "CHR ''_'' \<notin> set w" using rrLines_free[of s] w by (simp add: underscoreFree_iff)
      ultimately show ?thesis using last_not_underscore by blast
    qed
  qed
  from joinUnderscore_last[OF Wne Wlast]
  have strip: "stripTrailingUnderscore ((joinUnderscore (rememberVersion ?pl) @ ''_'') @ joinUnderscore ?W)
                 = (joinUnderscore (rememberVersion ?pl) @ ''_'') @ joinUnderscore ?W"
    by (simp add: stripTrailingUnderscore_def)
  have remne: "rememberVersion ?pl \<noteq> []" by (simp add: rememberVersion_def)
  have "optimizedLogic (applyRROptimization s)
          = (joinUnderscore (rememberVersion ?pl) @ ''_'') @ joinUnderscore ?W"
    by (simp only: unfold rem built strip)
  also have "\<dots> = joinUnderscore (rememberVersion ?pl @ ?W)"
    using remne Wne by (simp add: joinUnderscore_append)
  finally show ?thesis .
qed

lemma patternSteps_member:
  "(L, i) \<in> set (patternSteps n) \<longleftrightarrow> 2 \<le> L \<and> 3 * L \<le> n \<and> i + L \<le> n"
proof -
  have "(L, i) \<in> set (patternSteps n) \<longleftrightarrow> 2 \<le> L \<and> L \<le> n div 3 \<and> i \<le> n - L"
    by (auto simp: patternSteps_def image_iff less_Suc_eq_le simp del: upt_Suc)
  also have "\<dots> \<longleftrightarrow> 2 \<le> L \<and> 3 * L \<le> n \<and> i + L \<le> n"
    by (auto simp: less_eq_div_iff_mult_less_eq)
  finally show ?thesis .
qed

lemma countOccurrences_occurrences:
  assumes pat: "underscoreFree pat" "pat \<noteq> []"
  shows "underscoreFree rest \<Longrightarrow> countOccurrences (joinUnderscore pat) (length pat) rest = occurrences pat rest"
proof (induction rest rule: length_induct)
  case (1 rest)
  let ?L = "length pat"
  have L: "0 < ?L" using pat(2) by simp
  show ?case
  proof (cases "?L \<le> length rest")
    case False
    then show ?thesis
      by (subst countOccurrences.simps, subst occurrences.simps) simp
  next
    case True
    then have ne: "rest \<noteq> []" using L by auto
    have tne: "take ?L rest \<noteq> []" using ne L by simp
    have tf: "underscoreFree (take ?L rest)" using 1(2) by (rule underscoreFree_take)
    have test: "(joinUnderscore (take ?L rest) = joinUnderscore pat) = (take ?L rest = pat)"
      using tf pat(1) tne pat(2) by (rule join_eq_iff)
    have IH1: "countOccurrences (joinUnderscore pat) ?L (drop ?L rest) = occurrences pat (drop ?L rest)"
      using 1(1) 1(2) L ne by (simp add: underscoreFree_drop)
    have "underscoreFree (tl rest)" "length (tl rest) < length rest"
      using 1(2) ne by (cases rest; simp add: underscoreFree_iff)+
    with 1(1) have "countOccurrences (joinUnderscore pat) ?L (tl rest) = occurrences pat (tl rest)"
      by blast
    then have IH2: "countOccurrences (joinUnderscore pat) ?L (drop 1 rest) = occurrences pat (tl rest)"
      by (simp add: drop_Suc)
    show ?thesis
      using True L pat(2) test IH1 IH2
      by (subst countOccurrences.simps, subst occurrences.simps) simp
  qed
qed

lemma patternStep_inv:
  assumes "patternMapInv ls pm D"
  shows "patternMapInv ls (patternStep ls pm (L, i)) (insert (L, i) D)"
proof -
  let ?key = "joinUnderscore (candidate ls L i)"
  have has: "map_of pm ?key \<noteq> None \<longleftrightarrow> ?key \<in> fst ` set pm"
    by (simp add: map_of_eq_None_iff)
  consider (present) "?key \<in> fst ` set pm"
    | (added) "?key \<notin> fst ` set pm" "3 \<le> countOccurrences ?key L ls"
    | (rare) "?key \<notin> fst ` set pm" "\<not> 3 \<le> countOccurrences ?key L ls" by blast
  then show ?thesis
  proof cases
    case present
    then have "patternStep ls pm (L, i) = pm"
      using has by (simp add: patternStep_def candidate_def Let_def)
    then show ?thesis
      using assms present unfolding patternMapInv_def by auto
  next
    case added
    then have "patternStep ls pm (L, i)
        = pm @ [(?key, \<lparr>patLines = candidate ls L i, patCount = countOccurrences ?key L ls, patLength = L\<rparr>)]"
      using has by (simp add: patternStep_def candidate_def Let_def)
    then show ?thesis
      using assms added unfolding patternMapInv_def by (auto; force)
  next
    case rare
    then have "patternStep ls pm (L, i) = pm"
      using has by (simp add: patternStep_def candidate_def Let_def)
    then show ?thesis
      using assms rare unfolding patternMapInv_def by auto
  qed
qed

lemma foldl_patternStep_inv:
  "patternMapInv ls pm D \<Longrightarrow> patternMapInv ls (foldl (patternStep ls) pm steps) (D \<union> set steps)"
proof (induction steps arbitrary: pm D)
  case Nil
  then show ?case by simp
next
  case (Cons s steps)
  obtain L i where s: "s = (L, i)" by (cases s) auto
  from patternStep_inv[OF Cons.prems, of L i]
  have "patternMapInv ls (patternStep ls pm s) (insert s D)" by (simp add: s)
  from Cons.IH[OF this] show ?case by simp
qed

lemma patternMap_final:
  "patternMapInv ls (foldl (patternStep ls) [] (patternSteps (length ls))) (set (patternSteps (length ls)))"
  using foldl_patternStep_inv[of ls "[]" "{}" "patternSteps (length ls)"]
  by (simp add: patternMapInv_def)

lemma foldl_bestStep:
  "foldl bestStep (b, m) pm = (b', m') \<Longrightarrow>
     m \<le> m' \<and> (\<forall>e \<in> set pm. patLength (snd e) \<le> m')
     \<and> ((b' = b \<and> m' = m) \<or> (\<exists>e \<in> set pm. b' = Some (snd e) \<and> patLength (snd e) = m'))"
proof (induction pm arbitrary: b m)
  case Nil
  then show ?case by simp
next
  case (Cons e pm)
  show ?case
  proof (cases "patLength (snd e) > m")
    case True
    then have step: "bestStep (b, m) e = (Some (snd e), patLength (snd e))"
      by (simp add: bestStep_def)
    from Cons.prems have "foldl bestStep (bestStep (b, m) e) pm = (b', m')" by simp
    then have "foldl bestStep (Some (snd e), patLength (snd e)) pm = (b', m')"
      by (simp only: step)
    from Cons.IH[OF this] True show ?thesis by auto
  next
    case False
    then have step: "bestStep (b, m) e = (b, m)"
      by (simp add: bestStep_def)
    from Cons.prems have "foldl bestStep (bestStep (b, m) e) pm = (b', m')" by simp
    then have "foldl bestStep (b, m) pm = (b', m')"
      by (simp only: step)
    from Cons.IH[OF this] False show ?thesis by auto
  qed
qed

lemma findBestPattern_Some:
  assumes "findBestPattern ls = Some p"
  shows "\<exists>key. (key, p) \<in> set (foldl (patternStep ls) [] (patternSteps (length ls)))
               \<and> (\<forall>e \<in> set (foldl (patternStep ls) [] (patternSteps (length ls))).
                     patLength (snd e) \<le> patLength p)"
proof -
  let ?pm = "foldl (patternStep ls) [] (patternSteps (length ls))"
  obtain b' m' where fold: "foldl bestStep (None, 0) ?pm = (b', m')"
    by (cases "foldl bestStep (None, 0) ?pm") auto
  from assms have b': "b' = Some p"
    by (auto simp: findBestPattern_def Let_def fold split: if_splits)
  from foldl_bestStep[OF fold] b'
  obtain e where "e \<in> set ?pm" "Some p = Some (snd e)" "patLength (snd e) = m'"
    and "\<forall>e \<in> set ?pm. patLength (snd e) \<le> m'"
    by auto
  then show ?thesis
    by (intro exI[of _ "fst e"]) auto
qed

lemma candidate_length: "i + L \<le> length ls \<Longrightarrow> length (candidate ls L i) = L"
  by (simp add: candidate_def)

lemma candidate_ne: "2 \<le> L \<Longrightarrow> i + L \<le> length ls \<Longrightarrow> candidate ls L i \<noteq> []"
proof -
  assume "2 \<le> L" "i + L \<le> length ls"
  then have "0 < length (candidate ls L i)" by (simp add: candidate_length)
  then show ?thesis by simp
qed

lemma candidate_free: "underscoreFree ls \<Longrightarrow> underscoreFree (candidate ls L i)"
  by (simp add: candidate_def underscoreFree_take_drop)

lemma candidate_count:
  assumes "underscoreFree ls" "(L, i) \<in> set (patternSteps (length ls))"
  shows "countOccurrences (joinUnderscore (candidate ls L i)) L ls = occurrences (candidate ls L i) ls"
proof -
  from assms(2) have "2 \<le> L" "i + L \<le> length ls" by (simp_all add: patternSteps_member)
  then have len: "length (candidate ls L i) = L" and ne: "candidate ls L i \<noteq> []"
    by (simp_all add: candidate_length candidate_ne)
  from countOccurrences_occurrences[OF candidate_free[OF assms(1)] ne assms(1)]
  show ?thesis by (simp add: len)
qed

lemma qualifies_step: "qualifies ls L i \<Longrightarrow> (L, i) \<in> set (patternSteps (length ls))"
  by (simp add: qualifies_def patternSteps_member)

text \<open>The selected pattern qualifies, and no qualifying candidate is longer.\<close>

lemma findBestPattern_longest:
  assumes free: "underscoreFree ls" and fb: "findBestPattern ls = Some p"
  shows "(\<exists>i. qualifies ls (patLength p) i \<and> patLines p = candidate ls (patLength p) i)
         \<and> patLength p = length (patLines p) \<and> 2 \<le> patLength p
         \<and> (\<forall>L i. qualifies ls L i \<longrightarrow> L \<le> patLength p)"
proof -
  let ?steps = "patternSteps (length ls)"
  let ?pm = "foldl (patternStep ls) [] ?steps"
  note inv = patternMap_final[of ls, unfolded patternMapInv_def]
  from findBestPattern_Some[OF fb] obtain key
    where mem: "(key, p) \<in> set ?pm" and mx: "\<forall>e \<in> set ?pm. patLength (snd e) \<le> patLength p"
    by blast
  from inv mem obtain s where s: "s \<in> set ?steps" "key = joinUnderscore (candidate ls (fst s) (snd s))"
    "patLines p = candidate ls (fst s) (snd s)" "patLength p = fst s"
    "3 \<le> countOccurrences key (fst s) ls"
    by fastforce
  have sin: "(fst s, snd s) \<in> set ?steps" using s(1) by simp
  have bounds: "2 \<le> fst s" "3 * fst s \<le> length ls" "snd s + fst s \<le> length ls"
    using s(1) patternSteps_member[of "fst s" "snd s" "length ls"] by auto
  have occ: "3 \<le> occurrences (candidate ls (fst s) (snd s)) ls"
    using s(5) candidate_count[OF free sin] s(2) by simp
  have q: "qualifies ls (patLength p) (snd s)"
    using bounds occ s(4) by (simp add: qualifies_def)
  have len: "patLength p = length (patLines p)"
    using s(3,4) bounds(3) by (simp add: candidate_length)
  have longest: "L \<le> patLength p" if ql: "qualifies ls L i" for L i
  proof -
    from ql have st: "(L, i) \<in> set ?steps" by (rule qualifies_step)
    from ql have b: "2 \<le> L" "i + L \<le> length ls" and o: "3 \<le> occurrences (candidate ls L i) ls"
      by (simp_all add: qualifies_def)
    from o candidate_count[OF free st]
    have "3 \<le> countOccurrences (joinUnderscore (candidate ls L i)) L ls" by simp
    with inv st have "joinUnderscore (candidate ls L i) \<in> fst ` set ?pm" by force
    then obtain e where e: "e \<in> set ?pm" "fst e = joinUnderscore (candidate ls L i)" by auto
    from inv e(1) obtain s' where s': "s' \<in> set ?steps"
      "fst e = joinUnderscore (candidate ls (fst s') (snd s'))" "patLength (snd e) = fst s'"
      by fastforce
    have b': "2 \<le> fst s'" "snd s' + fst s' \<le> length ls"
      using s'(1) patternSteps_member[of "fst s'" "snd s'" "length ls"] by auto
    have "candidate ls L i = candidate ls (fst s') (snd s')"
    proof (rule joinUnderscore_inj)
      show "underscoreFree (candidate ls L i)" "underscoreFree (candidate ls (fst s') (snd s'))"
        using free by (simp_all add: candidate_free)
      show "candidate ls L i \<noteq> []" using b by (rule candidate_ne)
      show "candidate ls (fst s') (snd s') \<noteq> []" using b' by (rule candidate_ne)
      show "joinUnderscore (candidate ls L i) = joinUnderscore (candidate ls (fst s') (snd s'))"
        using e(2) s'(2) by simp
    qed
    then have "L = fst s'"
      using candidate_length[OF b(2)] candidate_length[OF b'(2)] by simp
    with mx e(1) s'(3) show ?thesis by auto
  qed
  show ?thesis
    using q s(3,4) len bounds(1) longest by auto
qed

lemma findBestPattern_exists:
  assumes free: "underscoreFree ls" and q: "qualifies ls L i"
  shows "findBestPattern ls \<noteq> None"
proof -
  let ?steps = "patternSteps (length ls)"
  let ?pm = "foldl (patternStep ls) [] ?steps"
  note inv = patternMap_final[of ls, unfolded patternMapInv_def]
  from q have st: "(L, i) \<in> set ?steps" by (rule qualifies_step)
  from q have b: "2 \<le> L" "3 * L \<le> length ls" and o: "3 \<le> occurrences (candidate ls L i) ls"
    by (simp_all add: qualifies_def)
  from o candidate_count[OF free st]
  have "3 \<le> countOccurrences (joinUnderscore (candidate ls L i)) L ls" by simp
  with inv st have "joinUnderscore (candidate ls L i) \<in> fst ` set ?pm" by force
  then obtain e where e: "e \<in> set ?pm" by auto
  from inv e obtain s' where s': "s' \<in> set ?steps" "patLength (snd e) = fst s'" by fastforce
  have pos: "2 \<le> patLength (snd e)"
    using s'(1,2) patternSteps_member[of "fst s'" "snd s'" "length ls"] by auto
  obtain b' m' where fold: "foldl bestStep (None, 0) ?pm = (b', m')"
    by (cases "foldl bestStep (None, 0) ?pm") auto
  from foldl_bestStep[OF fold] e pos have "b' \<noteq> None" by force
  moreover have "\<not> length ls < 6" using b by simp
  moreover have "?pm \<noteq> []" using e by auto
  ultimately show ?thesis
    by (simp add: findBestPattern_def Let_def fold)
qed

lemma findBestPattern_None_short: "length ls < 6 \<Longrightarrow> findBestPattern ls = None"
  by (simp add: findBestPattern_def)

lemma splitUnderscore_free_line: "CHR ''_'' \<notin> set x \<Longrightarrow> splitUnderscore x = [x]"
  by (induction x) auto

lemma splitUnderscore_append: "CHR ''_'' \<notin> set x \<Longrightarrow> splitUnderscore (x @ CHR ''_'' # r) = x # splitUnderscore r"
  by (induction x) auto

lemma splitUnderscore_join:
  "underscoreFree xs \<Longrightarrow> xs \<noteq> [] \<Longrightarrow> splitUnderscore (joinUnderscore xs) = xs"
proof (induction xs)
  case Nil
  then show ?case by simp
next
  case (Cons x xs)
  have fx: "CHR ''_'' \<notin> set x" using Cons.prems(1) by (simp add: underscoreFree_iff)
  show ?case
  proof (cases "xs = []")
    case True
    then show ?thesis using fx by (simp add: splitUnderscore_free_line)
  next
    case False
    moreover have "underscoreFree xs" using Cons.prems(1) by (simp add: underscoreFree_iff)
    ultimately have "splitUnderscore (joinUnderscore xs) = xs" using Cons.IH by blast
    then show ?thesis
      using False fx by (simp add: joinUnderscore_Cons splitUnderscore_append)
  qed
qed

lemma rrLines_join:
  assumes "underscoreFree xs" "xs \<noteq> []" "\<forall>l \<in> set xs. trim l \<noteq> []"
  shows "rrLines (joinUnderscore xs) = xs"
  using assms by (simp add: rrLines_def splitUnderscore_join)

lemma findBestPattern_rrLines:
  assumes "findBestPattern (rrLines s) = Some p"
  shows "patLength p = length (patLines p) \<and> patLines p \<noteq> [] \<and> underscoreFree (patLines p)
         \<and> rrLines s \<noteq> []"
proof -
  from findBestPattern_longest[OF rrLines_free assms]
  obtain i where "patLines p = candidate (rrLines s) (patLength p) i"
    and len: "patLength p = length (patLines p)" and two: "2 \<le> patLength p"
    by blast
  then have "underscoreFree (patLines p)"
    using candidate_free[OF rrLines_free, of s "patLength p" i] by (simp only:)
  moreover have "rrLines s \<noteq> []"
    using assms findBestPattern_None_short[of "rrLines s"] by auto
  moreover have "patLines p \<noteq> []" using len two by auto
  ultimately show ?thesis using len by blast
qed

lemma applyRROptimization_general:
  assumes "findBestPattern (rrLines s) = Some p" "matchFlag (last (patLines p)) = Some f"
  shows "optimizedLogic (applyRROptimization s)
           = joinUnderscore (rememberVersion (patLines p) @ recallWalk (patLines p) (f @ ''{recall}'') (rrLines s))"
  using applyRROptimization_selected[OF assms] findBestPattern_rrLines[OF assms(1)] by blast

lemma applyRROptimization_unchanged:
  assumes "findBestPattern (rrLines s) = None
           \<or> (findBestPattern (rrLines s) = Some p \<and> matchFlag (last (patLines p)) = None)"
  shows "optimizedLogic (applyRROptimization s) = s"
  using assms by (auto simp: applyRROptimization_def rrUnchanged_def Let_def)

lemma three_repeats:
  assumes free: "CHR ''_'' \<notin> set p1" "CHR ''_'' \<notin> set p2"
    and nonblank: "trim p1 \<noteq> []" "trim p2 \<noteq> []"
    and flag: "matchFlag p2 = Some g"
  shows "optimizedLogic (applyRROptimization (joinUnderscore [p1, p2, p1, p2, p1, p2]))
           = joinUnderscore [p1, ''K:'' @ drop 2 p2, g @ ''{recall}'', g @ ''{recall}'', g @ ''{recall}'']"
proof -
  let ?ls = "[p1, p2, p1, p2, p1, p2]"
  let ?s = "joinUnderscore ?ls"
  have uf: "underscoreFree ?ls" using free by (simp add: underscoreFree_iff)
  have lines: "rrLines ?s = ?ls"
    using uf nonblank by (intro rrLines_join) simp_all
  have c0: "candidate ?ls 2 0 = [p1, p2]" by (simp add: candidate_def)
  have o0: "occurrences [p1, p2] ?ls = 3"
    by (simp add: occurrences.simps)
  have q0: "qualifies ?ls 2 0"
    by (simp add: qualifies_def c0 o0)
  from findBestPattern_exists[OF uf q0] obtain p where fb: "findBestPattern ?ls = Some p" by auto
  from findBestPattern_longest[OF uf fb] obtain i
    where q: "qualifies ?ls (patLength p) i" and pl: "patLines p = candidate ?ls (patLength p) i"
    by blast
  from q have "2 \<le> patLength p" "3 * patLength p \<le> 6" by (simp_all add: qualifies_def)
  then have two: "patLength p = 2" by simp
  from q two have i: "i \<le> 4" and occ: "3 \<le> occurrences (candidate ?ls 2 i) ?ls"
    by (simp_all add: qualifies_def)
  have cand: "candidate ?ls 2 i = [p1, p2]"
  proof (cases "p1 = p2")
    case True
    from i have "i = 0 \<or> i = 1 \<or> i = 2 \<or> i = 3 \<or> i = 4" by arith
    then show ?thesis using True by (elim disjE) (simp_all add: candidate_def)
  next
    case False
    have odd: "occurrences [p2, p1] ?ls = 2"
      using False by (simp add: occurrences.simps)
    from i have "i = 0 \<or> i = 1 \<or> i = 2 \<or> i = 3 \<or> i = 4" by arith
    then show ?thesis
    proof (elim disjE)
      assume "i = 1"
      then have "candidate ?ls 2 i = [p2, p1]" by (simp add: candidate_def)
      with occ odd show ?thesis by simp
    next
      assume "i = 3"
      then have "candidate ?ls 2 i = [p2, p1]" by (simp add: candidate_def)
      with occ odd show ?thesis by simp
    qed (simp_all add: candidate_def)
  qed
  have pat: "patLines p = [p1, p2]" using pl two cand by simp
  have walk: "recallWalk [p1, p2] (g @ ''{recall}'') ?ls = [g @ ''{recall}'', g @ ''{recall}'', g @ ''{recall}'']"
    by (simp add: recallWalk.simps)
  have fb': "findBestPattern (rrLines ?s) = Some p" using fb lines by simp
  have fl: "matchFlag (last (patLines p)) = Some g" using flag pat by simp
  from applyRROptimization_general[OF fb' fl]
  show ?thesis
    by (simp only: pat lines walk rememberVersion_def) simp
qed

text \<open>
  C1, as the specification words it: the first occurrence of the selected pattern would stay in
  place as the remember pattern, and only the later occurrences would become recall lines. The
  function instead puts the remember pattern in front of the whole output and replaces every
  occurrence, the first one included: three back-to-back repetitions of a two-line pattern give
  the remember pattern followed by three recall lines, and a line in front of the first
  occurrence ends up behind the remember pattern.
\<close>

theorem applyRROptimization_original_counterexample:
  "optimizedLogic (applyRROptimization ''A:0x1_B:0x2_A:0x1_B:0x2_A:0x1_B:0x2'')
     = ''A:0x1_K:0x2_B:{recall}_B:{recall}_B:{recall}''
   \<and> optimizedLogic (applyRROptimization ''X_A:0x1_B:0x2_Y_A:0x1_B:0x2_A:0x1_B:0x2_Z'')
     = ''A:0x1_K:0x2_X_B:{recall}_Y_B:{recall}_B:{recall}_Z''"
  by code_simp

text \<open>
  C1, amended: when \<^const>\<open>findBestPattern\<close> selects a pattern whose last line starts
  with a flag, the optimized logic is the remember pattern (the pattern with the flag of its last
  line replaced by \<^verbatim>\<open>K:\<close>) followed by the input lines in which every
  non-overlapping occurrence of the pattern, scanned from the left and the first one included,
  is replaced by one recall line. The selected pattern is a window of at least two lines, at most
  a third of the input, that occurs at least three times, and no such window is longer; a
  pattern is selected whenever such a window exists. With no selected pattern, or no flag on the
  last line of the selected pattern, the input comes back unchanged. In particular a two-line
  pattern repeated three times back-to-back becomes the remember pattern followed by three recall
  lines.
\<close>

theorem applyRROptimization_rewrites_selected_pattern:
  "(findBestPattern (rrLines s) = Some p \<and> matchFlag (last (patLines p)) = Some f
      \<longrightarrow> optimizedLogic (applyRROptimization s)
            = joinUnderscore (rememberVersion (patLines p)
                @ recallWalk (patLines p) (f @ ''{recall}'') (rrLines s)))
   \<and> (findBestPattern (rrLines s) = Some p
      \<longrightarrow> (\<exists>i. qualifies (rrLines s) (length (patLines p)) i
                \<and> patLines p = candidate (rrLines s) (length (patLines p)) i)
          \<and> (\<forall>L i. qualifies (rrLines s) L i \<longrightarrow> L \<le> length (patLines p)))
   \<and> (qualifies (rrLines s) L i \<longrightarrow> findBestPattern (rrLines s) \<noteq> None)
   \<and> (findBestPattern (rrLines s) = None
        \<or> (findBestPattern (rrLines s) = Some p \<and> matchFlag (last (patLines p)) = None)
      \<longrightarrow> optimizedLogic (applyRROptimization s) = s)
   \<and> (CHR ''_'' \<notin> set p1 \<and> CHR ''_'' \<notin> set p2 \<and> trim p1 \<noteq> [] \<and> trim p2 \<noteq> []
        \<and> matchFlag p2 = Some g
      \<longrightarrow> optimizedLogic (applyRROptimization (joinUnderscore [p1, p2, p1, p2, p1, p2]))
            = joinUnderscore [p1, ''K:'' @ drop 2 p2,
                g @ ''{recall}'', g @ ''{recall}'', g @ ''{recall}''])"
proof (intro conjI impI)
  assume "findBestPattern (rrLines s) = Some p \<and> matchFlag (last (patLines p)) = Some f"
  then show "optimizedLogic (applyRROptimization s)
            = joinUnderscore (rememberVersion (patLines p)
                @ recallWalk (patLines p) (f @ ''{recall}'') (rrLines s))"
    using applyRROptimization_general by blast
next
  assume fb: "findBestPattern (rrLines s) = Some p"
  from findBestPattern_longest[OF rrLines_free fb]
  show "\<exists>i. qualifies (rrLines s) (length (patLines p)) i
                \<and> patLines p = candidate (rrLines s) (length (patLines p)) i"
    by metis
next
  assume fb: "findBestPattern (rrLines s) = Some p"
  from findBestPattern_longest[OF rrLines_free fb]
  show "\<forall>L i. qualifies (rrLines s) L i \<longrightarrow> L \<le> length (patLines p)"
    by metis
next
  assume "qualifies (rrLines s) L i"
  then show "findBestPattern (rrLines s) \<noteq> None"
    using findBestPattern_exists[OF rrLines_free] by blast
next
  assume "findBestPattern (rrLines s) = None
        \<or> (findBestPattern (rrLines s) = Some p \<and> matchFlag (last (patLines p)) = None)"
  then show "optimizedLogic (applyRROptimization s) = s"
    by (rule applyRROptimization_unchanged)
next
  assume "CHR ''_'' \<notin> set p1 \<and> CHR ''_'' \<notin> set p2 \<and> trim p1 \<noteq> [] \<and> trim p2 \<noteq> []
        \<and> matchFlag p2 = Some g"
  then show "optimizedLogic (applyRROptimization (joinUnderscore [p1, p2, p1, p2, p1, p2]))
            = joinUnderscore [p1, ''K:'' @ drop 2 p2,
                g @ ''{recall}'', g @ ''{recall}'', g @ ''{recall}'']"
    using three_repeats by blast
qed

text \<open>
  The amended C1 at a concrete input: a two-line pattern occurring three times between other lines,
  an input without repetition, and the three back-to-back repetitions.
\<close>

theorem applyRROptimization_rewrites_selected_pattern_witness:
  "findBestPattern (rrLines ''X_A:0x1_B:0x2_Y_A:0x1_B:0x2_A:0x1_B:0x2_Z'')
     = Some \<lparr>patLines = [''A:0x1'', ''B:0x2''], patCount = 3, patLength = 2\<rparr>
   \<and> matchFlag ''B:0x2'' = Some ''B:''
   \<and> optimizedLogic (applyRROptimization ''X_A:0x1_B:0x2_Y_A:0x1_B:0x2_A:0x1_B:0x2_Z'')
       = joinUnderscore ([''A:0x1'', ''K:0x2'']
           @ [''X'', ''B:{recall}'', ''Y'', ''B:{recall}'', ''B:{recall}'', ''Z''])
   \<and> qualifies (rrLines ''X_A:0x1_B:0x2_Y_A:0x1_B:0x2_A:0x1_B:0x2_Z'') 2 1
   \<and> (\<exists>i. qualifies (rrLines ''X_A:0x1_B:0x2_Y_A:0x1_B:0x2_A:0x1_B:0x2_Z'') 2 i)
   \<and> \<not> qualifies (rrLines ''X_A:0x1_B:0x2_Y_A:0x1_B:0x2_A:0x1_B:0x2_Z'') 3 0
   \<and> findBestPattern (rrLines ''a_b_c_d_e_f'') = None
   \<and> optimizedLogic (applyRROptimization ''a_b_c_d_e_f'') = ''a_b_c_d_e_f''
   \<and> optimizedLogic (applyRROptimization (joinUnderscore
         [''A:0x1'', ''B:0x2'', ''A:0x1'', ''B:0x2'', ''A:0x1'', ''B:0x2'']))
       = ''A:0x1_K:0x2_B:{recall}_B:{recall}_B:{recall}''"
proof -
  let ?s = "''X_A:0x1_B:0x2_Y_A:0x1_B:0x2_A:0x1_B:0x2_Z''"
  let ?p = "\<lparr>patLines = [''A:0x1'', ''B:0x2''], patCount = 3, patLength = 2\<rparr>"
  note thm1 = applyRROptimization_rewrites_selected_pattern
    [of ?s ?p "''B:''" 2 1 "''A:0x1''" "''B:0x2''" "''B:''"]
  note thm2 = applyRROptimization_rewrites_selected_pattern
    [of "''a_b_c_d_e_f''" ?p "''B:''" 2 1 "''A:0x1''" "''B:0x2''" "''B:''"]
  have fb: "findBestPattern (rrLines ?s) = Some ?p" by code_simp
  have mf: "matchFlag ''B:0x2'' = Some ''B:''" by code_simp
  have mf': "matchFlag (last (patLines ?p)) = Some ''B:''" by code_simp
  have q: "qualifies (rrLines ?s) 2 1" by code_simp
  have nq: "\<not> qualifies (rrLines ?s) 3 0" by code_simp
  have none: "findBestPattern (rrLines ''a_b_c_d_e_f'') = None" by code_simp
  have rhs: "joinUnderscore (rememberVersion (patLines ?p)
                @ recallWalk (patLines ?p) (''B:'' @ ''{recall}'') (rrLines ?s))
      = joinUnderscore ([''A:0x1'', ''K:0x2'']
           @ [''X'', ''B:{recall}'', ''Y'', ''B:{recall}'', ''B:{recall}'', ''Z''])"
    by code_simp
  have side: "CHR ''_'' \<notin> set ''A:0x1'' \<and> CHR ''_'' \<notin> set ''B:0x2''
      \<and> trim ''A:0x1'' \<noteq> [] \<and> trim ''B:0x2'' \<noteq> []" by code_simp
  have out: "joinUnderscore [''A:0x1'', ''K:'' @ drop 2 ''B:0x2'',
                ''B:'' @ ''{recall}'', ''B:'' @ ''{recall}'', ''B:'' @ ''{recall}'']
      = ''A:0x1_K:0x2_B:{recall}_B:{recall}_B:{recall}''" by code_simp
  from thm1 fb mf' have a: "optimizedLogic (applyRROptimization ?s)
       = joinUnderscore (rememberVersion (patLines ?p)
                @ recallWalk (patLines ?p) (''B:'' @ ''{recall}'') (rrLines ?s))"
    by blast
  from thm2 none have d: "optimizedLogic (applyRROptimization ''a_b_c_d_e_f'') = ''a_b_c_d_e_f''"
    by blast
  from thm1 side mf have e: "optimizedLogic (applyRROptimization (joinUnderscore
         [''A:0x1'', ''B:0x2'', ''A:0x1'', ''B:0x2'', ''A:0x1'', ''B:0x2'']))
       = joinUnderscore [''A:0x1'', ''K:'' @ drop 2 ''B:0x2'',
                ''B:'' @ ''{recall}'', ''B:'' @ ''{recall}'', ''B:'' @ ''{recall}'']"
    by blast
  show ?thesis
    using fb mf a[unfolded rhs] q nq none d e[unfolded out] by blast
qed

end
